theory Spec2Isabelle
  imports Main "HOL-Library.Word" "HOL-Library.List_Lexorder"
begin

unbundle bit_operations_syntax

section \<open>ctagz: a reader for ctags files (src/ctagz.js)\<close>

text \<open>
  The module has four parts: a tag-line parser (\<open>_parseTagLine\<close>,
  \<open>_parseExtensionFields\<close>), a chunked line reader (\<open>_readTagLine\<close>,
  \<open>_readTagLineSeek\<close>, \<open>_skipPartialUTF8\<close>), a header loader
  (\<open>_readPseudoTags\<close>, \<open>init\<close>) and a file locator (\<open>findCTagsFile\<close>).
  Method names lose their leading underscore, which an Isabelle name cannot start with.
\<close>

subsection \<open>JavaScript values\<close>

text \<open>
  A JavaScript string is a sequence of UTF-16 code units; a Buffer is a sequence of bytes.
  \<open>JS\<close> writes an ASCII literal as a JavaScript string. A JavaScript number that can be
  NaN is an \<open>int option\<close> with \<open>None\<close> for NaN.
\<close>

type_synonym jschar = "16 word"
type_synonym jsstring = "jschar list"
type_synonym byte = "8 word"

definition JS :: "string \<Rightarrow> jsstring" where
  "JS s = map of_char s"

abbreviation TAB :: jschar where "TAB \<equiv> 0x09"
abbreviation LF :: jschar where "LF \<equiv> 0x0A"
abbreviation CR :: jschar where "CR \<equiv> 0x0D"
abbreviation DQUOTE :: jschar where "DQUOTE \<equiv> 0x22"
abbreviation SLASH :: jschar where "SLASH \<equiv> 0x2F"
abbreviation COLON :: jschar where "COLON \<equiv> 0x3A"
abbreviation SEMICOLON :: jschar where "SEMICOLON \<equiv> 0x3B"
abbreviation QMARK :: jschar where "QMARK \<equiv> 0x3F"
abbreviation BACKSLASH :: jschar where "BACKSLASH \<equiv> 0x5C"

text \<open>\<open>s.indexOf(c, pos)\<close> for a one-character \<open>c\<close>; \<open>None\<close> is the source's \<open>-1\<close>.\<close>

primrec index_from :: "'a \<Rightarrow> 'a list \<Rightarrow> nat \<Rightarrow> nat option" where
  "index_from c [] i = None"
| "index_from c (x # xs) i = (if x = c then Some i else index_from c xs (Suc i))"

definition indexOf :: "'a list \<Rightarrow> 'a \<Rightarrow> nat \<Rightarrow> nat option" where
  "indexOf s c pos = index_from c (drop pos s) pos"

text \<open>\<open>s.indexOf(sub, pos)\<close> for a string \<open>sub\<close>.\<close>

primrec index_of_sub :: "'a list \<Rightarrow> 'a list \<Rightarrow> nat \<Rightarrow> nat option" where
  "index_of_sub sub [] i = (if sub = [] then Some i else None)"
| "index_of_sub sub (x # xs) i =
     (if take (length sub) (x # xs) = sub then Some i else index_of_sub sub xs (Suc i))"

definition indexOfStr :: "'a list \<Rightarrow> 'a list \<Rightarrow> nat \<Rightarrow> nat option" where
  "indexOfStr s sub pos = index_of_sub sub (drop pos s) (min pos (length s))"

text \<open>\<open>s.substr(start, len)\<close> and \<open>s.substr(start)\<close>, for \<open>start\<close> and \<open>len\<close> not negative.\<close>

definition substr :: "'a list \<Rightarrow> nat \<Rightarrow> nat \<Rightarrow> 'a list" where
  "substr s start len = take len (drop start s)"

definition substr_from :: "'a list \<Rightarrow> nat \<Rightarrow> 'a list" where
  "substr_from s start = drop start s"

text \<open>\<open>isdigit\<close> (line 20) compares one-character strings, that is, code units.\<close>

definition isdigit :: "jschar \<Rightarrow> bool" where
  "isdigit d \<longleftrightarrow> 0x30 \<le> d \<and> d \<le> 0x39"

text \<open>
  \<open>parseInt(s, 10)\<close> of the language: leading white space and line terminators are
  skipped, one sign is read, then the longest run of decimal digits; no digit gives NaN.
  The value is the exact integer (the language rounds it to a double beyond \<open>2^53\<close>).
\<close>

definition isStrWhiteSpace :: "jschar \<Rightarrow> bool" where
  "isStrWhiteSpace c \<longleftrightarrow>
     c \<in> {0x09, 0x0A, 0x0B, 0x0C, 0x0D, 0x20, 0xA0, 0x1680, 0x2028, 0x2029, 0x202F,
          0x205F, 0x3000, 0xFEFF} \<or> (0x2000 \<le> c \<and> c \<le> 0x200A)"

definition digits_value :: "jsstring \<Rightarrow> nat" where
  "digits_value ds = foldl (\<lambda>a d. 10 * a + (unat d - 48)) 0 ds"

definition parseInt :: "jsstring \<Rightarrow> int option" where
  "parseInt s =
     (let t = dropWhile isStrWhiteSpace s;
          neg = (t \<noteq> [] \<and> hd t = 0x2D);
          u = (if t \<noteq> [] \<and> (hd t = 0x2D \<or> hd t = 0x2B) then tl t else t);
          ds = takeWhile isdigit u
      in if ds = [] then None
         else Some (if neg then - int (digits_value ds) else int (digits_value ds)))"

subsection \<open>Tag entries\<close>

record Address =
  lineNumber :: "int option"
  pattern :: jsstring

record TagEntry =
  fields_map :: "jsstring \<rightharpoonup> jsstring"
  kind :: "jsstring option"
  "file" :: jsstring
  fileScope :: bool
  name :: jsstring
  address :: Address
  valid :: bool

text \<open>The entry that \<open>_parseTagLine\<close> starts from (lines 92 to 103).\<close>

definition new_entry :: TagEntry where
  "new_entry = \<lparr> fields_map = Map.empty, kind = None, file = [], fileScope = False, name = [],
                 address = \<lparr> lineNumber = Some 0, pattern = [] \<rparr>, valid = False \<rparr>"

subsection \<open>\<open>_parseExtensionFields\<close> (lines 57 to 89)\<close>

text \<open>The inner loop of line 60: skip the tabs at \<open>pos\<close>.\<close>

function skip_tabs :: "jsstring \<Rightarrow> nat \<Rightarrow> nat" where
  "skip_tabs str pos =
     (if pos < length str \<and> str ! pos = TAB then skip_tabs str (pos + 1) else pos)"
  by pat_completeness auto
termination
  by (relation "measure (\<lambda>(str, pos). length str - pos)") auto

declare skip_tabs.simps [simp del]

text \<open>
  The assignment \<open>entry.fields[key] = value\<close> of line 84. On a plain object the key
  \<open>__proto__\<close> is the prototype accessor, whose setter ignores a string: nothing is stored.
\<close>

definition set_field :: "jsstring \<Rightarrow> jsstring \<Rightarrow> TagEntry \<Rightarrow> TagEntry" where
  "set_field key val entry =
     (if key = JS ''__proto__'' then entry
      else entry\<lparr>fields_map := (fields_map entry)(key \<mapsto> val)\<rparr>)"

text \<open>Lines 72 to 86: one part of the field text, from \<open>pos\<close> to \<open>splitPos\<close>.\<close>

definition store_part :: "jsstring \<Rightarrow> nat \<Rightarrow> nat \<Rightarrow> nat \<Rightarrow> TagEntry \<Rightarrow> TagEntry" where
  "store_part str pos partPos splitPos entry =
     (if partPos = splitPos then entry\<lparr>kind := Some (substr str pos (splitPos - pos))\<rparr>
      else
        (let key = substr str pos (partPos - pos);
             val = substr str (partPos + 1) (splitPos - partPos - 1)
         in if key = JS ''kind'' then entry\<lparr>kind := Some val\<rparr>
            else if key = JS ''file'' then entry\<lparr>fileScope := True\<rparr>
            else if key = JS ''line''
              then entry\<lparr>address := (address entry)\<lparr>lineNumber := parseInt val\<rparr>\<rparr>
            else set_field key val entry))"

text \<open>Lines 63 to 66 and 67 to 70.\<close>

definition splitPos_at :: "jsstring \<Rightarrow> nat \<Rightarrow> nat" where
  "splitPos_at str pos = (case indexOf str TAB pos of None \<Rightarrow> length str | Some i \<Rightarrow> i)"

definition partPos_at :: "jsstring \<Rightarrow> nat \<Rightarrow> nat \<Rightarrow> nat" where
  "partPos_at str pos splitPos =
     (case indexOf str COLON pos of None \<Rightarrow> splitPos
      | Some j \<Rightarrow> if j > splitPos then splitPos else j)"

lemma index_from_ge: "index_from c xs i = Some j \<Longrightarrow> i \<le> j \<and> j < i + length xs"
  by (induction xs arbitrary: i) (fastforce split: if_splits)+

lemma index_from_nth: "index_from c xs i = Some j \<Longrightarrow> xs ! (j - i) = c"
proof (induction xs arbitrary: i)
  case Nil
  then show ?case by simp
next
  case (Cons x xs)
  show ?case
  proof (cases "x = c")
    case True
    with Cons.prems show ?thesis by simp
  next
    case False
    with Cons.prems have r: "index_from c xs (Suc i) = Some j" by simp
    from index_from_ge [OF r] have "Suc i \<le> j" by simp
    then have "j - i = Suc (j - Suc i)" by simp
    with Cons.IH [OF r] show ?thesis by simp
  qed
qed

lemma skip_tabs_step:
  "pos < length str \<Longrightarrow> str ! pos = TAB \<Longrightarrow> skip_tabs str pos = skip_tabs str (pos + 1)"
  by (subst skip_tabs.simps) simp

lemma skip_tabs_done:
  "\<not> (pos < length str \<and> str ! pos = TAB) \<Longrightarrow> skip_tabs str pos = pos"
  by (subst skip_tabs.simps) auto

lemma skip_tabs_ge: "pos \<le> skip_tabs str pos"
proof (induction str pos rule: skip_tabs.induct)
  case (1 str pos)
  show ?case
  proof (cases "pos < length str \<and> str ! pos = TAB")
    case True
    with 1 have "pos + 1 \<le> skip_tabs str (pos + 1)" by simp
    with True show ?thesis by (simp add: skip_tabs_step)
  next
    case False
    then have "skip_tabs str pos = pos" by (rule skip_tabs_done)
    then show ?thesis by simp
  qed
qed

lemma skip_tabs_stop:
  "skip_tabs str pos < length str \<Longrightarrow> str ! skip_tabs str pos \<noteq> TAB"
proof (induction str pos rule: skip_tabs.induct)
  case (1 str pos)
  show ?case
  proof (cases "pos < length str \<and> str ! pos = TAB")
    case True
    then have e: "skip_tabs str pos = skip_tabs str (pos + 1)"
      by (simp add: skip_tabs_step)
    with 1 True show ?thesis by simp
  next
    case False
    then have e: "skip_tabs str pos = pos" by (rule skip_tabs_done)
    with 1 False show ?thesis by auto
  qed
qed

lemma skip_tabs_le: "pos \<le> length str \<Longrightarrow> skip_tabs str pos \<le> length str"
proof (induction str pos rule: skip_tabs.induct)
  case (1 str pos)
  show ?case
  proof (cases "pos < length str \<and> str ! pos = TAB")
    case True
    then have e: "skip_tabs str pos = skip_tabs str (pos + 1)"
      by (simp add: skip_tabs_step)
    with 1 True show ?thesis by simp
  next
    case False
    then have e: "skip_tabs str pos = pos" by (rule skip_tabs_done)
    with 1 show ?thesis by simp
  qed
qed

lemma splitPos_at_ge: "pos \<le> length str \<Longrightarrow> pos \<le> splitPos_at str pos"
  by (auto simp: splitPos_at_def indexOf_def split: option.splits dest: index_from_ge)

lemma splitPos_at_gt:
  assumes "pos < length str" and "str ! pos \<noteq> TAB"
  shows "pos < splitPos_at str pos"
proof (cases "indexOf str TAB pos")
  case None
  with assms show ?thesis by (simp add: splitPos_at_def)
next
  case (Some i)
  then have r: "index_from TAB (drop pos str) pos = Some i" by (simp add: indexOf_def)
  from index_from_ge [OF r] have ge: "pos \<le> i" by simp
  from index_from_nth [OF r] assms have "str ! (pos + (i - pos)) = TAB" by simp
  with ge assms have "i \<noteq> pos" by auto
  with ge Some show ?thesis by (simp add: splitPos_at_def)
qed

lemma ext_progress:
  assumes "pos < length str"
  shows "pos < splitPos_at str (skip_tabs str pos)"
proof (cases "skip_tabs str pos < length str")
  case True
  from splitPos_at_gt [OF True skip_tabs_stop [OF True]] skip_tabs_ge [of pos str]
  show ?thesis by simp
next
  case False
  with skip_tabs_le [of pos str] assms have e: "skip_tabs str pos = length str" by simp
  have "indexOf str TAB (length str) = None" by (simp add: indexOf_def)
  then have "splitPos_at str (length str) = length str" by (simp add: splitPos_at_def)
  with e assms show ?thesis by simp
qed

text \<open>The loop of line 59. Each round ends at \<open>splitPos\<close>, which lies beyond \<open>pos\<close>.\<close>

function parseExtensionFields_from :: "jsstring \<Rightarrow> nat \<Rightarrow> TagEntry \<Rightarrow> TagEntry" where
  "parseExtensionFields_from str pos entry =
     (if pos < length str then
        (let pos1 = skip_tabs str pos;
             splitPos = splitPos_at str pos1;
             partPos = partPos_at str pos1 splitPos
         in parseExtensionFields_from str splitPos (store_part str pos1 partPos splitPos entry))
      else entry)"
  by pat_completeness auto
termination
proof (relation "measure (\<lambda>(str, pos, entry). length str - pos)")
  show "wf (measure (\<lambda>(str, pos, entry). length str - pos))" by simp
next
  fix str :: jsstring and pos :: nat and entry :: TagEntry and x xa xb
  assume "pos < length str" and "x = skip_tabs str pos" and "xa = splitPos_at str x"
  then show "((str, xa, store_part str x xb xa entry), str, pos, entry)
         \<in> measure (\<lambda>(str, pos, entry). length str - pos)"
    using ext_progress [of pos str] by simp
qed

declare parseExtensionFields_from.simps [simp del]

definition parseExtensionFields :: "jsstring \<Rightarrow> TagEntry \<Rightarrow> TagEntry" where
  "parseExtensionFields str entry = parseExtensionFields_from str 0 entry"

subsection \<open>\<open>_parseTagLine\<close> (lines 91 to 166)\<close>

text \<open>
  The loop of lines 127 to 142, from \<open>pos\<close> with \<open>bsc\<close> backslashes pending; the result
  is \<open>pos\<close> and \<open>parsedPattern\<close> when the loop is left. \<open>bsc >>> 1\<close> converts \<open>bsc\<close>
  to an unsigned 32-bit integer and shifts it right by one bit.
\<close>

function scan_pattern :: "jsstring \<Rightarrow> jschar \<Rightarrow> nat \<Rightarrow> nat \<Rightarrow> jsstring \<Rightarrow> nat \<times> jsstring" where
  "scan_pattern pat delimiter pos bsc parsedPattern =
     (if pos < length pat then
        (if pat ! pos = BACKSLASH
           then scan_pattern pat delimiter (pos + 1) (bsc + 1) parsedPattern
         else if bsc > 0
           then scan_pattern pat delimiter (pos + 1) 0
                  (parsedPattern @ replicate (unat (drop_bit 1 (word_of_nat bsc :: 32 word))) BACKSLASH
                     @ [pat ! pos])
         else if pat ! pos = delimiter then (pos, parsedPattern)
         else scan_pattern pat delimiter (pos + 1) bsc (parsedPattern @ [pat ! pos]))
      else (pos, parsedPattern))"
  by pat_completeness auto
termination
  by (relation "measure (\<lambda>(pat, delimiter, pos, bsc, parsedPattern). length pat - pos)") auto

declare scan_pattern.simps [simp del]

text \<open>The loop of lines 154 to 156.\<close>

function skip_digits :: "jsstring \<Rightarrow> nat \<Rightarrow> nat" where
  "skip_digits pat pos =
     (if pos < length pat \<and> isdigit (pat ! pos) then skip_digits pat (pos + 1) else pos)"
  by pat_completeness auto
termination
  by (relation "measure (\<lambda>(pat, pos). length pat - pos)") auto

declare skip_digits.simps [simp del]

text \<open>Lines 161 to 165: the extension fields after the marker \<open>;"\<close>, then \<open>valid\<close>.\<close>

definition finish_entry :: "jsstring \<Rightarrow> nat \<Rightarrow> TagEntry \<Rightarrow> TagEntry" where
  "finish_entry pat pos entry =
     (let entry1 = (if indexOfStr pat [SEMICOLON, DQUOTE] pos = Some pos
                    then parseExtensionFields (substr_from pat (pos + 2)) entry
                    else entry)
      in entry1\<lparr>valid := True\<rparr>)"

text \<open>
  Lines 117 to 165: the address and what follows it, read from \<open>pat\<close>, the text after
  the second tab. The source's local \<open>pattern\<close> is \<open>pat\<close> here.
\<close>

definition parse_address :: "jsstring \<Rightarrow> TagEntry \<Rightarrow> TagEntry" where
  "parse_address pat entry =
     (if length pat = 0 then entry
      else if pat ! 0 = SLASH \<or> pat ! 0 = QMARK then
        (let delimiter = pat ! 0;
             (pos, parsedPattern) = scan_pattern pat delimiter 1 0 []
         in if pos < length pat
            then finish_entry pat (pos + 1)
                   (entry\<lparr>address := (address entry)\<lparr>pattern := parsedPattern\<rparr>\<rparr>)
            else entry)
      else if isdigit (pat ! 0) then
        finish_entry pat (skip_digits pat 0)
          (entry\<lparr>address := (address entry)\<lparr>lineNumber := parseInt pat\<rparr>\<rparr>)
      else entry)"

text \<open>Lines 92 to 117: the name up to the first tab, the file up to the second.\<close>

definition parseTagLine :: "jsstring \<Rightarrow> TagEntry" where
  "parseTagLine line =
     (case indexOf line TAB 0 of
        None \<Rightarrow> new_entry
      | Some nameSplit \<Rightarrow>
          (let entry = new_entry\<lparr>name := substr line 0 nameSplit\<rparr>
           in case indexOf line TAB (nameSplit + 1) of
                None \<Rightarrow> entry
              | Some fileSplit \<Rightarrow>
                  parse_address (substr_from line (fileSplit + 1))
                    (entry\<lparr>file := substr line (nameSplit + 1) (fileSplit - nameSplit - 1)\<rparr>)))"

subsection \<open>The text decoder\<close>

text \<open>
  \<open>StringDecoder\<close> is the UTF-8 decoder of Node.js: \<open>write\<close> returns the characters that
  are complete, holds an incomplete trailing sequence back for the next \<open>write\<close>, and
  gives U+FFFD for bytes that are not UTF-8. It is modelled as the streaming UTF-8 decoder
  of the Encoding Standard, one byte at a time. The state is the code point under
  construction, the number of bytes it still needs and the bounds of its next byte; a
  code point beyond the basic plane is written as a surrogate pair.
\<close>

record Decoder =
  code_point :: nat
  bytes_needed :: nat
  lower_boundary :: byte
  upper_boundary :: byte

definition new_decoder :: Decoder where
  "new_decoder = \<lparr> code_point = 0, bytes_needed = 0, lower_boundary = 0x80,
                   upper_boundary = 0xBF \<rparr>"

abbreviation REPLACEMENT :: jschar where "REPLACEMENT \<equiv> 0xFFFD"

definition utf16 :: "nat \<Rightarrow> jsstring" where
  "utf16 c =
     (if c < 0x10000 then [of_nat c]
      else [of_nat (0xD800 + (c - 0x10000) div 0x400), of_nat (0xDC00 + (c - 0x10000) mod 0x400)])"

definition decode_lead :: "byte \<Rightarrow> jsstring \<times> Decoder" where
  "decode_lead b =
     (if b \<le> 0x7F then ([of_nat (unat b)], new_decoder)
      else if 0xC2 \<le> b \<and> b \<le> 0xDF
        then ([], new_decoder\<lparr>bytes_needed := 1, code_point := unat (b AND 0x1F)\<rparr>)
      else if 0xE0 \<le> b \<and> b \<le> 0xEF
        then ([], new_decoder\<lparr>bytes_needed := 2, code_point := unat (b AND 0x0F),
                    lower_boundary := (if b = 0xE0 then 0xA0 else 0x80),
                    upper_boundary := (if b = 0xED then 0x9F else 0xBF)\<rparr>)
      else if 0xF0 \<le> b \<and> b \<le> 0xF4
        then ([], new_decoder\<lparr>bytes_needed := 3, code_point := unat (b AND 0x07),
                    lower_boundary := (if b = 0xF0 then 0x90 else 0x80),
                    upper_boundary := (if b = 0xF4 then 0x8F else 0xBF)\<rparr>)
      else ([REPLACEMENT], new_decoder))"

definition decode_byte :: "Decoder \<Rightarrow> byte \<Rightarrow> jsstring \<times> Decoder" where
  "decode_byte st b =
     (if bytes_needed st = 0 then decode_lead b
      else if b < lower_boundary st \<or> upper_boundary st < b
        then (REPLACEMENT # fst (decode_lead b), snd (decode_lead b))
      else if bytes_needed st = 1
        then (utf16 (code_point st * 64 + unat (b AND 0x3F)), new_decoder)
      else ([], \<lparr> code_point = code_point st * 64 + unat (b AND 0x3F),
                  bytes_needed = bytes_needed st - 1,
                  lower_boundary = 0x80, upper_boundary = 0xBF \<rparr>))"

text \<open>\<open>decoder.write(buffer)\<close>: the text decoded and the state left.\<close>

fun decoder_write :: "Decoder \<Rightarrow> byte list \<Rightarrow> jsstring \<times> Decoder" where
  "decoder_write st [] = ([], st)"
| "decoder_write st (b # bs) =
     (case decode_byte st b of (out, st1) \<Rightarrow>
        (case decoder_write st1 bs of (rest, st2) \<Rightarrow> (out @ rest, st2)))"

text \<open>
  \<open>text.split(/\r?\n/)\<close>: the text is cut at every line feed, and a carriage return just
  before the line feed belongs to the cut. The result is never empty.
\<close>

fun split_lines :: "jsstring \<Rightarrow> jsstring list" where
  "split_lines [] = [[]]"
| "split_lines [c] = (if c = LF then [[], []] else [[c]])"
| "split_lines (c # c' # cs) =
     (if c = LF then [] # split_lines (c' # cs)
      else if c = CR \<and> c' = LF then [] # split_lines cs
      else (case split_lines (c' # cs) of
              l # ls \<Rightarrow> (c # l) # ls
            | [] \<Rightarrow> [[c]]))"

subsection \<open>The handle (class \<open>CTags\<close>, lines 24 to 44)\<close>

text \<open>
  The fields of \<open>this.info\<close> carry the prefix \<open>info_\<close>, and \<open>size\<close> is \<open>size_bytes\<close>. The
  constructor does not assign \<open>size\<close>: it is \<open>undefined\<close>, here \<open>None\<close>, until \<open>init\<close>.
  A cursor is \<open>None\<close> when it is NaN, which the clamp of line 208 gives for a handle
  without size. A path is the list of the components of an absolute path.
\<close>

type_synonym path = "jsstring list"

record Info =
  info_format :: "int option"
  info_sort :: "int option"
  info_author :: jsstring
  info_name :: jsstring
  info_url :: jsstring
  info_version :: jsstring

record CTags =
  tagsFile :: path
  fd :: nat
  pos :: "nat option"
  workingPos :: "nat option"
  readBuffer :: "byte list"
  decoder :: Decoder
  lines :: "jsstring list"
  shouldSkip :: bool
  initialised :: bool
  info :: Info
  size_bytes :: "nat option"

abbreviation TAG_UNSORTED :: int where "TAG_UNSORTED \<equiv> 0"
abbreviation TAG_SORTED :: int where "TAG_SORTED \<equiv> 1"
abbreviation TAG_FOLDSORTED :: int where "TAG_FOLDSORTED \<equiv> 2"

definition PSEUDO_TAG_PREFIX :: jsstring where
  "PSEUDO_TAG_PREFIX = JS ''!_''"

definition READ_BUFFER_SIZE :: nat where
  "READ_BUFFER_SIZE = 1024"

text \<open>
  The constructor. \<open>Buffer.allocUnsafe(1024)\<close> gives 1024 bytes of unspecified content:
  \<open>buf\<close> stands for them.
\<close>

definition new_CTags :: "path \<Rightarrow> nat \<Rightarrow> byte list \<Rightarrow> CTags" where
  "new_CTags tagsFile' fd' buf =
     \<lparr> tagsFile = tagsFile', fd = fd', pos = Some 0, workingPos = Some 0, readBuffer = buf,
       decoder = new_decoder, lines = [], shouldSkip = False, initialised = False,
       info = \<lparr> info_format = Some 1, info_sort = Some TAG_UNSORTED, info_author = [],
                info_name = [], info_url = [], info_version = [] \<rparr>,
       size_bytes = None \<rparr>"

subsection \<open>\<open>_skipPartialUTF8\<close> (lines 46 to 55)\<close>

function skip_offset :: "byte list \<Rightarrow> nat \<Rightarrow> nat \<Rightarrow> nat" where
  "skip_offset buffer len offset =
     (if offset < len \<and> offset < length buffer \<and> (buffer ! offset) AND 0xC0 = 0x80
      then skip_offset buffer len (offset + 1) else offset)"
  by pat_completeness auto
termination
  by (relation "measure (\<lambda>(buffer, len, offset). len - offset)") auto

declare skip_offset.simps [simp del]

text \<open>
  Beyond the end of the buffer \<open>buffer[offset]\<close> is \<open>undefined\<close> and the test of line 48
  fails, which the second conjunct above says. \<open>buffer.slice(offset)\<close> is the rest of the
  whole buffer, whatever \<open>length\<close> is.
\<close>

definition skipPartialUTF8 :: "byte list \<Rightarrow> nat \<Rightarrow> byte list" where
  "skipPartialUTF8 buffer len =
     (let offset = skip_offset buffer len 0
      in if offset > 0 then drop offset buffer else buffer)"

subsection \<open>\<open>_readTagLine\<close> (lines 168 to 205)\<close>

text \<open>
  The file behind the descriptor is the byte list \<open>content\<close>; a read does not fail.
  \<open>fs.read(fd, buffer, 0, buffer.length, position)\<close> copies the bytes at \<open>position\<close> into
  the front of the buffer, as many as there are and as fit, and leaves the rest of the
  buffer as it was. The result is the number of bytes read and the buffer.
\<close>

definition fs_read :: "byte list \<Rightarrow> byte list \<Rightarrow> nat \<Rightarrow> nat \<times> byte list" where
  "fs_read content buffer position =
     (let bytesRead = min (length buffer) (length content - position)
      in (bytesRead, take bytesRead (drop position content) @ drop bytesRead buffer))"

text \<open>
  The loop of lines 170 to 175: lines are taken from the front of the queue while more
  than one is there; an empty one is dropped, the first that is not empty is returned.
\<close>

fun drain :: "jsstring list \<Rightarrow> jsstring option \<times> jsstring list" where
  "drain (l # l' # ls) = (if l \<noteq> [] then (Some l, l' # ls) else drain (l' # ls))"
| "drain ls = (None, ls)"

text \<open>
  The test \<open>this.workingPos < this.size\<close> of line 176, false when either side is not a
  number; the result is the position to read at.
\<close>

definition unread :: "CTags \<Rightarrow> nat option" where
  "unread h =
     (case (workingPos h, size_bytes h) of
        (Some w, Some s) \<Rightarrow> if w < s then Some w else None
      | _ \<Rightarrow> None)"

text \<open>
  Lines 177 to 193: one chunk is read at \<open>w\<close>, the whole buffer is decoded and split, and
  the parts are queued, the first of them joined to the line left in the queue.
\<close>

definition read_chunk :: "byte list \<Rightarrow> nat \<Rightarrow> CTags \<Rightarrow> CTags" where
  "read_chunk content w h =
     (case fs_read content (readBuffer h) w of (bytesRead, buf) \<Rightarrow>
        (let rb = (if shouldSkip h then skipPartialUTF8 buf bytesRead else buf)
         in case decoder_write (decoder h) rb of (text, dec) \<Rightarrow>
              (let parts = split_lines text
               in h\<lparr> workingPos := Some (w + bytesRead), readBuffer := buf,
                      shouldSkip := False, decoder := dec,
                      lines := (if length (lines h) > 0
                                then butlast (lines h) @ [last (lines h) @ hd parts] @ tl parts
                                else parts) \<rparr>)))"

text \<open>
  \<open>readAtLeastALine\<close>. It calls itself after every chunk, and does so for ever when a
  read returns no byte: the result \<open>None\<close> is the promise that never settles. A result
  \<open>Some (None, h)\<close> is the \<open>null\<close> of line 201, the end of the stream.
\<close>

partial_function (option) readAtLeastALine ::
  "byte list \<Rightarrow> CTags \<Rightarrow> (jsstring option \<times> CTags) option" where
  "readAtLeastALine content h =
     (case drain (lines h) of
        (Some line, rest) \<Rightarrow> Some (Some line, h\<lparr>lines := rest\<rparr>)
      | (None, rest) \<Rightarrow>
          (case unread h of
             Some w \<Rightarrow> readAtLeastALine content (read_chunk content w (h\<lparr>lines := rest\<rparr>))
           | None \<Rightarrow>
               (case rest of
                  l # ls \<Rightarrow> Some (Some l, h\<lparr>lines := ls\<rparr>)
                | [] \<Rightarrow> Some (None, h\<lparr>lines := rest\<rparr>))))"

declare readAtLeastALine.simps [code]

definition readTagLine :: "byte list \<Rightarrow> CTags \<Rightarrow> (jsstring option \<times> CTags) option" where
  "readTagLine content h = readAtLeastALine content h"

subsection \<open>\<open>_readTagLineSeek\<close> (lines 207 to 214)\<close>

text \<open>\<open>Math.min(Math.max(pos, 0), this.size)\<close>, which is NaN when the size is undefined.\<close>

definition clamp_pos :: "int \<Rightarrow> nat option \<Rightarrow> nat option" where
  "clamp_pos p sz = (case sz of None \<Rightarrow> None | Some s \<Rightarrow> Some (min (nat (max p 0)) s))"

text \<open>\<open>decoder.end()\<close> drops what the decoder holds; its result is not used.\<close>

definition seek_reset :: "int \<Rightarrow> CTags \<Rightarrow> CTags" where
  "seek_reset p h =
     h\<lparr> pos := clamp_pos p (size_bytes h), workingPos := clamp_pos p (size_bytes h),
        decoder := new_decoder, lines := [], shouldSkip := True \<rparr>"

definition readTagLineSeek ::
  "byte list \<Rightarrow> int \<Rightarrow> CTags \<Rightarrow> (jsstring option \<times> CTags) option" where
  "readTagLineSeek content p h =
     (case readTagLine content (seek_reset p h) of
        None \<Rightarrow> None
      | Some (discarded, h1) \<Rightarrow> readTagLine content h1)"

subsection \<open>\<open>_readPseudoTags\<close> (lines 216 to 251)\<close>

definition startsWith :: "jsstring \<Rightarrow> jsstring \<Rightarrow> bool" where
  "startsWith s prefix \<longleftrightarrow> take (length prefix) s = prefix"

text \<open>The \<open>switch\<close> of lines 220 to 241.\<close>

definition store_pseudo :: "TagEntry \<Rightarrow> Info \<Rightarrow> Info" where
  "store_pseudo entry i =
     (if name entry = JS ''!_TAG_FILE_SORTED'' then i\<lparr>info_sort := parseInt (file entry)\<rparr>
      else if name entry = JS ''!_TAG_FILE_FORMAT'' then i\<lparr>info_format := parseInt (file entry)\<rparr>
      else if name entry = JS ''!_TAG_PROGRAM_AUTHOR'' then i\<lparr>info_author := file entry\<rparr>
      else if name entry = JS ''!_TAG_PROGRAM_NAME'' then i\<lparr>info_name := file entry\<rparr>
      else if name entry = JS ''!_TAG_PROGRAM_URL'' then i\<lparr>info_url := file entry\<rparr>
      else if name entry = JS ''!_TAG_PROGRAM_VERSION'' then i\<lparr>info_version := file entry\<rparr>
      else i)"

text \<open>
  \<open>tagReader\<close> reads lines while they start with the prefix. \<open>l && ...\<close> is false for
  \<open>null\<close> and for the empty string.
\<close>

partial_function (option) tagReader :: "byte list \<Rightarrow> CTags \<Rightarrow> CTags option" where
  "tagReader content h =
     (case readTagLine content h of
        None \<Rightarrow> None
      | Some (l, h1) \<Rightarrow>
          (case l of
             None \<Rightarrow> Some h1
           | Some line \<Rightarrow>
               if line \<noteq> [] \<and> startsWith line PSEUDO_TAG_PREFIX
               then tagReader content (h1\<lparr>info := store_pseudo (parseTagLine line) (info h1)\<rparr>)
               else Some h1))"

declare tagReader.simps [code]

text \<open>The \<open>finally\<close> of line 247 sets the working cursor to 0 and nothing else.\<close>

definition readPseudoTags :: "byte list \<Rightarrow> CTags \<Rightarrow> CTags option" where
  "readPseudoTags content h =
     (case tagReader content h of
        None \<Rightarrow> None
      | Some h1 \<Rightarrow> Some (h1\<lparr>workingPos := Some 0\<rparr>))"

subsection \<open>The file system and the other collaborators\<close>

text \<open>
  What the module asks of Node.js: \<open>path.resolve\<close>, \<open>fs.stat\<close> (the result is
  \<open>isFile()\<close>), \<open>fs.readdir\<close>, \<open>fs.open\<close>, \<open>fs.fstat\<close> (the result is \<open>size\<close>), the bytes
  behind an open descriptor, \<open>Buffer.allocUnsafe\<close> and \<open>minimatch\<close> (a name and a
  pattern). A rejected promise is \<open>Inl\<close> with its error.
\<close>

datatype error = ENOENT | EACCES | ENOTDIR | EBADF | EMFILE

record Env =
  fs_resolve :: "jsstring \<Rightarrow> path"
  fs_stat :: "path \<Rightarrow> error + bool"
  fs_readdir :: "path \<Rightarrow> error + jsstring list"
  fs_open :: "path \<Rightarrow> error + nat"
  fs_fstat :: "nat \<Rightarrow> error + nat"
  fs_data :: "nat \<Rightarrow> byte list"
  alloc_unsafe :: "nat \<Rightarrow> byte list"
  minimatch :: "jsstring \<Rightarrow> jsstring \<Rightarrow> bool"

text \<open>
  \<open>path.dirname\<close> and \<open>path.join\<close> on the components of an absolute path: the root is
  the empty list and is its own parent.
\<close>

definition dirname :: "path \<Rightarrow> path" where
  "dirname p = butlast p"

definition join :: "path \<Rightarrow> jsstring \<Rightarrow> path" where
  "join p m = p @ [m]"

subsection \<open>\<open>init\<close> (lines 253 to 272)\<close>

text \<open>
  The result is \<open>None\<close> when the promise never settles, \<open>Some (Inl e)\<close> when it is rejected
  and \<open>Some (Inr h)\<close> when it is fulfilled with the handle. A descriptor 0 is falsy.
\<close>

definition init_state :: "Env \<Rightarrow> CTags \<Rightarrow> error + CTags \<times> nat" where
  "init_state env h =
     (if fd h = 0 then
        (case fs_open env (tagsFile h) of
           Inl e \<Rightarrow> Inl e
         | Inr fd' \<Rightarrow>
             (case fs_fstat env fd' of Inl e \<Rightarrow> Inl e | Inr sz \<Rightarrow> Inr (h\<lparr>fd := fd'\<rparr>, sz)))
      else
        (case fs_fstat env (fd h) of Inl e \<Rightarrow> Inl e | Inr sz \<Rightarrow> Inr (h, sz)))"

definition init :: "Env \<Rightarrow> CTags \<Rightarrow> (error + CTags) option" where
  "init env h =
     (case init_state env h of
        Inl e \<Rightarrow> Some (Inl e)
      | Inr (h1, sz) \<Rightarrow>
          (case readPseudoTags (fs_data env (fd h1)) (h1\<lparr>size_bytes := Some sz\<rparr>) of
             None \<Rightarrow> None
           | Some h2 \<Rightarrow> Some (Inr (h2\<lparr>initialised := True\<rparr>))))"

subsection \<open>\<open>findCTagsFile\<close> (lines 301 to 333)\<close>

text \<open>
  The function given to \<open>Promise.reduce\<close> (lines 307 to 314): a handle already found is
  kept; otherwise the match is opened, and a failure to open leaves \<open>undefined\<close>, which is
  \<open>None\<close> like the initial \<open>null\<close>.
\<close>

definition open_match :: "Env \<Rightarrow> path \<Rightarrow> CTags option \<Rightarrow> jsstring \<Rightarrow> CTags option" where
  "open_match env tagPath acc m =
     (case acc of
        Some h \<Rightarrow> Some h
      | None \<Rightarrow>
          (let matchPath = join tagPath m
           in case fs_open env matchPath of
                Inr fd' \<Rightarrow> Some (new_CTags matchPath fd' (alloc_unsafe env READ_BUFFER_SIZE))
              | Inl e \<Rightarrow> None))"

lemma dirname_shorter: "dirname p \<noteq> p \<Longrightarrow> length (dirname p) < length p"
  by (cases p rule: rev_cases) (auto simp: dirname_def)

function ctagsFinder :: "Env \<Rightarrow> jsstring \<Rightarrow> path \<Rightarrow> error + CTags option" where
  "ctagsFinder env tagFilePattern tagPath =
     (case fs_readdir env tagPath of
        Inl e \<Rightarrow> Inl e
      | Inr files \<Rightarrow>
          (let matched = sort (filter (\<lambda>p. minimatch env p tagFilePattern) files);
               result = foldl (open_match env tagPath) None matched;
               newTagPath = dirname tagPath
           in if Option.is_none result \<and> newTagPath \<noteq> tagPath
              then ctagsFinder env tagFilePattern newTagPath
              else Inr result))"
  by pat_completeness auto
termination
  by (relation "measure (\<lambda>(env, tagFilePattern, tagPath). length tagPath)")
     (auto simp: dirname_shorter)

declare ctagsFinder.simps [simp del]

definition findCTagsFile :: "Env \<Rightarrow> jsstring \<Rightarrow> jsstring \<Rightarrow> error + CTags option" where
  "findCTagsFile env searchPath tagFilePattern =
     (let tagPath = fs_resolve env searchPath
      in case fs_stat env tagPath of
           Inl e \<Rightarrow> Inl e
         | Inr isFile \<Rightarrow> ctagsFinder env tagFilePattern (if isFile then dirname tagPath else tagPath))"

subsection \<open>Reading a file to its end\<close>

text \<open>\<open>BYTES\<close> writes an ASCII literal as the bytes of a file.\<close>

definition BYTES :: "string \<Rightarrow> byte list" where
  "BYTES s = map of_char s"

text \<open>The number of bytes that line 176 still sees ahead of the working cursor.\<close>

definition remaining :: "CTags \<Rightarrow> nat" where
  "remaining h = (case unread h of None \<Rightarrow> 0 | Some w \<Rightarrow> the (size_bytes h) - w)"

text \<open>
  A caller that calls \<open>_readTagLine\<close> until it returns \<open>null\<close>, at most \<open>fuel\<close> times: the
  lines it was given, or \<open>None\<close> when the end was not reached.
\<close>

fun read_all :: "nat \<Rightarrow> byte list \<Rightarrow> CTags \<Rightarrow> jsstring list option" where
  "read_all 0 content h = None"
| "read_all (Suc fuel) content h =
     (case readTagLine content h of
        None \<Rightarrow> None
      | Some (None, h1) \<Rightarrow> Some []
      | Some (Some l, h1) \<Rightarrow> map_option ((#) l) (read_all fuel content h1))"

text \<open>
  A handle as \<open>init\<close> leaves it before it reads: built by the constructor on a buffer
  \<open>buf\<close>, with the size of the file.
\<close>

definition opened :: "byte list \<Rightarrow> nat \<Rightarrow> CTags" where
  "opened buf n = (new_CTags [JS ''tags''] 3 buf)\<lparr>size_bytes := Some n\<rparr>"

text \<open>A file of two lines with a blank line between them.\<close>

definition blank_file :: "byte list" where
  "blank_file = BYTES ''a'' @ [0x0A, 0x0A] @ BYTES ''b'' @ [0x0A]"

subsection \<open>Reading a whole file, in words\<close>

text \<open>
  The lines of a file as the specification has them: the whole file is decoded as one
  chunk and the text is split at the line terminators.
\<close>

definition whole_file_lines :: "byte list \<Rightarrow> jsstring list" where
  "whole_file_lines content = split_lines (fst (decoder_write new_decoder content))"

text \<open>
  The lines that the reader gives for them: the empty ones are dropped, but for the last,
  which is returned as it is.
\<close>

definition expected_lines :: "byte list \<Rightarrow> jsstring list" where
  "expected_lines content =
     filter (\<lambda>l. l \<noteq> []) (butlast (whole_file_lines content)) @ [last (whole_file_lines content)]"

text \<open>
  No carriage return is the last byte of a chunk of \<open>c\<close> bytes with a line feed as the
  first byte of the next chunk.
\<close>

definition no_crlf_split :: "nat \<Rightarrow> byte list \<Rightarrow> bool" where
  "no_crlf_split c content \<longleftrightarrow>
     (\<forall>p < length content. 0 < p \<and> c dvd p \<longrightarrow> \<not> (content ! (p - 1) = 0x0D \<and> content ! p = 0x0A))"

text \<open>
  The texts that the chunks of \<open>c\<close> bytes of \<open>bs\<close> decode to, one after the other, from the
  decoder state \<open>st\<close>.
\<close>

function chunk_texts :: "nat \<Rightarrow> Decoder \<Rightarrow> byte list \<Rightarrow> jsstring list" where
  "chunk_texts c st bs =
     (if c = 0 \<or> bs = [] then []
      else (case decoder_write st (take c bs) of
              (t, st1) \<Rightarrow> t # chunk_texts c st1 (drop c bs)))"
  by pat_completeness auto
termination
  by (relation "measure (\<lambda>(c, st, bs). length bs)") auto

declare chunk_texts.simps [simp del]

text \<open>The queue \<open>q\<close> after the texts \<open>ts\<close> were split and queued as lines 186 to 193 do.\<close>

fun absorb :: "jsstring list \<Rightarrow> jsstring list \<Rightarrow> jsstring list" where
  "absorb q [] = q"
| "absorb q (t # ts) =
     absorb (if length q > 0
             then butlast q @ [last q @ hd (split_lines t)] @ tl (split_lines t)
             else split_lines t) ts"

text \<open>What is read from a queue \<open>q\<close> with the texts \<open>ts\<close> still to come.\<close>

definition expected :: "jsstring list \<Rightarrow> jsstring list \<Rightarrow> jsstring list" where
  "expected q ts = filter (\<lambda>l. l \<noteq> []) (butlast (absorb q ts)) @ [last (absorb q ts)]"

text \<open>The states of the decoder that decoding reaches.\<close>

definition wf_decoder :: "Decoder \<Rightarrow> bool" where
  "wf_decoder st \<longleftrightarrow>
     bytes_needed st \<le> 3 \<and> upper_boundary st \<le> 0xBF \<and>
     (bytes_needed st = 1 \<longrightarrow> 2 \<le> code_point st \<and> code_point st < 32768) \<and>
     (bytes_needed st = 2 \<longrightarrow>
        code_point st < 512 \<and> (1 \<le> code_point st \<or> 0xA0 \<le> lower_boundary st)) \<and>
     (bytes_needed st = 3 \<longrightarrow>
        code_point st < 8 \<and> (1 \<le> code_point st \<or> 0x90 \<le> lower_boundary st))"

text \<open>
  A handle in the middle of a sequential read of \<open>content\<close> in chunks of \<open>c\<close> bytes, and the
  texts of the chunks it has not read.
\<close>

definition reading :: "nat \<Rightarrow> byte list \<Rightarrow> CTags \<Rightarrow> bool" where
  "reading c content h \<longleftrightarrow>
     0 < c \<and> length (readBuffer h) = c \<and> size_bytes h = Some (length content) \<and>
     \<not> shouldSkip h \<and>
     (\<exists>w. workingPos h = Some w \<and> w \<le> length content \<and> c dvd (length content - w))"

definition rest_texts :: "nat \<Rightarrow> byte list \<Rightarrow> CTags \<Rightarrow> jsstring list" where
  "rest_texts c content h =
     (case workingPos h of
        None \<Rightarrow> []
      | Some w \<Rightarrow> chunk_texts c (decoder h) (drop w content))"

text \<open>
  A file of nine bytes whose fourth character takes two bytes, with a line that ends in
  \<open>\r\n\<close> and a blank line: in chunks of three bytes the two bytes of the character fall
  into different chunks.
\<close>

definition accent_file :: "byte list" where
  "accent_file = BYTES ''ab'' @ [0xC3, 0xA9, 0x0D, 0x0A, 0x0A] @ BYTES ''c'' @ [0x0A]"

subsection \<open>The search, in words\<close>

text \<open>
  A directory that was listed and in which no entry that matches the pattern could be
  opened.
\<close>

definition no_match_opens :: "Env \<Rightarrow> jsstring \<Rightarrow> path \<Rightarrow> bool" where
  "no_match_opens env tagFilePattern dir =
     (case fs_readdir env dir of
        Inl e \<Rightarrow> False
      | Inr files \<Rightarrow>
          (\<forall>m \<in> set files. minimatch env m tagFilePattern \<longrightarrow> isl (fs_open env (join dir m))))"

text \<open>
  The handle \<open>h\<close> was made in \<open>dir\<close>: the directory was listed, \<open>h\<close> is the constructor's
  handle for an entry that matches and was opened, and every matching entry before it in
  the order of the strings could not be opened.
\<close>

definition found_at :: "Env \<Rightarrow> jsstring \<Rightarrow> path \<Rightarrow> CTags \<Rightarrow> bool" where
  "found_at env tagFilePattern dir h =
     (\<exists>files m fd'.
        fs_readdir env dir = Inr files \<and> m \<in> set files \<and> minimatch env m tagFilePattern \<and>
        fs_open env (join dir m) = Inr fd' \<and>
        h = new_CTags (join dir m) fd' (alloc_unsafe env READ_BUFFER_SIZE) \<and>
        (\<forall>m' \<in> set files. minimatch env m' tagFilePattern \<and> m' < m
            \<longrightarrow> isl (fs_open env (join dir m'))))"

text \<open>Lines 305 to 314: the handle that one directory with the entries \<open>files\<close> gives.\<close>

definition level :: "Env \<Rightarrow> jsstring \<Rightarrow> path \<Rightarrow> jsstring list \<Rightarrow> CTags option" where
  "level env tagFilePattern dir files =
     foldl (open_match env dir) None (sort (filter (\<lambda>p. minimatch env p tagFilePattern) files))"

text \<open>
  What a result \<open>r\<close> of the search from \<open>dir\<close> says. The directories searched are \<open>dir\<close>
  and its ancestors \<open>take k dir\<close>, the nearest first. An error is the error of listing one
  of them, a handle was made in one of them, and in both cases no entry could be opened in
  the directories nearer to the start; without a handle, no entry could be opened in any
  directory up to the root.
\<close>

definition search_outcome :: "Env \<Rightarrow> jsstring \<Rightarrow> path \<Rightarrow> error + CTags option \<Rightarrow> bool" where
  "search_outcome env tagFilePattern dir r =
     (case r of
        Inl e \<Rightarrow>
          (\<exists>k\<le>length dir. fs_readdir env (take k dir) = Inl e \<and>
             (\<forall>j. k < j \<and> j \<le> length dir \<longrightarrow> no_match_opens env tagFilePattern (take j dir)))
      | Inr None \<Rightarrow> (\<forall>j\<le>length dir. no_match_opens env tagFilePattern (take j dir))
      | Inr (Some h) \<Rightarrow>
          (\<exists>k\<le>length dir. found_at env tagFilePattern (take k dir) h \<and>
             (\<forall>j. k < j \<and> j \<le> length dir \<longrightarrow> no_match_opens env tagFilePattern (take j dir))))"

subsection \<open>An example tree\<close>

text \<open>
  The header of the specification (section 8): a pseudo-tag line and one entry.
\<close>

definition pseudo_line :: jsstring where
  "pseudo_line = JS ''!_TAG_FILE_SORTED'' @ [TAB] @ JS ''1'' @ [TAB] @ JS ''//comment''"

definition header_file :: "byte list" where
  "header_file = BYTES ''!_TAG_FILE_SORTED'' @ [0x09] @ BYTES ''1'' @ [0x09] @ BYTES ''//comment''
     @ [0x0A] @ BYTES ''main'' @ [0x09] @ BYTES ''main.c'' @ [0x09] @ BYTES ''1'' @ [0x0A]"

text \<open>
  The directory \<open>/a/b/c\<close>, with the entries \<open>tags\<close>, \<open>b\<close> and \<open>TAGS\<close> in \<open>/a\<close>. \<open>/a/TAGS\<close>
  cannot be opened; \<open>/a/tags\<close> opens as descriptor 3 and holds \<open>header_file\<close>. The pattern
  \<open>{TAGS,tags}\<close> matches both names. A fresh buffer holds zeros.
\<close>

definition example_env :: Env where
  "example_env =
     \<lparr> fs_resolve = (\<lambda>s. if s = JS ''/a/b/c'' then [JS ''a'', JS ''b'', JS ''c''] else []),
       fs_stat = (\<lambda>p. if p = [JS ''a'', JS ''tags''] then Inr True
                       else if p \<in> {[], [JS ''a''], [JS ''a'', JS ''b''], [JS ''a'', JS ''b'', JS ''c'']}
                         then Inr False
                       else Inl ENOENT),
       fs_readdir = (\<lambda>p. if p = [JS ''a'', JS ''b'', JS ''c''] then Inr []
                          else if p = [JS ''a'', JS ''b''] then Inr [JS ''c'']
                          else if p = [JS ''a''] then Inr [JS ''tags'', JS ''b'', JS ''TAGS'']
                          else if p = [] then Inr [JS ''a'']
                          else Inl ENOTDIR),
       fs_open = (\<lambda>p. if p = [JS ''a'', JS ''tags''] then Inr 3
                       else if p = [JS ''a'', JS ''TAGS''] then Inl EACCES
                       else Inl ENOENT),
       fs_fstat = (\<lambda>d. if d = 3 then Inr (length header_file) else Inl EBADF),
       fs_data = (\<lambda>d. if d = 3 then header_file else []),
       alloc_unsafe = (\<lambda>n. replicate n 0),
       minimatch = (\<lambda>p pat. pat = JS ''{TAGS,tags}'' \<and> (p = JS ''TAGS'' \<or> p = JS ''tags'')) \<rparr>"

definition found_handle :: CTags where
  "found_handle = new_CTags [JS ''a'', JS ''tags''] 3 (replicate 1024 0)"

text \<open>The same tree with a directory \<open>/a/b\<close> that cannot be listed.\<close>

definition locked_env :: Env where
  "locked_env = example_env\<lparr>fs_readdir :=
      (\<lambda>p. if p = [JS ''a'', JS ''b''] then Inl EACCES else fs_readdir example_env p)\<rparr>"

text \<open>
  The handle for \<open>/a/tags\<close> after \<open>_readPseudoTags\<close>, and after \<open>init\<close>: the buffer holds
  the file and 980 zeros behind it, and the queue holds the text decoded from the zeros.
\<close>

definition headed_handle :: CTags where
  "headed_handle =
     found_handle\<lparr> workingPos := Some 0, readBuffer := header_file @ replicate 980 0,
                    lines := [replicate 980 0],
                    info := (info found_handle)\<lparr>info_sort := Some TAG_SORTED\<rparr>,
                    size_bytes := Some 44 \<rparr>"

definition loaded_handle :: CTags where
  "loaded_handle = headed_handle\<lparr>initialised := True\<rparr>"

definition main_line :: jsstring where
  "main_line = JS ''main'' @ [TAB] @ JS ''main.c'' @ [TAB] @ JS ''1''"

text \<open>The first line of the header from its tenth byte on.\<close>

definition stale_line :: jsstring where
  "stale_line = JS ''E_SORTED'' @ [TAB] @ JS ''1'' @ [TAB] @ JS ''//comment''"

text \<open>A header followed by two entries.\<close>

definition foo_line :: jsstring where
  "foo_line = JS ''foo'' @ [TAB] @ JS ''f.c'' @ [TAB] @ JS ''1''"

definition bar_line :: jsstring where
  "bar_line = JS ''bar'' @ [TAB] @ JS ''f.c'' @ [TAB] @ JS ''2''"

definition entries_file :: "byte list" where
  "entries_file = BYTES ''!_TAG_FILE_SORTED'' @ [0x09] @ BYTES ''1'' @ [0x09] @ BYTES ''//comment''
     @ [0x0A] @ BYTES ''foo'' @ [0x09] @ BYTES ''f.c'' @ [0x09] @ BYTES ''1'' @ [0x0A]
     @ BYTES ''bar'' @ [0x09] @ BYTES ''f.c'' @ [0x09] @ BYTES ''2'' @ [0x0A]"

text \<open>The line that a caller is given by its first read after \<open>_readPseudoTags\<close>.\<close>

definition first_read_after_header :: "byte list \<Rightarrow> CTags \<Rightarrow> jsstring option option" where
  "first_read_after_header content h =
     (case readPseudoTags content h of
        None \<Rightarrow> None
      | Some h1 \<Rightarrow> map_option fst (readTagLine content h1))"

subsection \<open>The scan rule of the pattern, in words\<close>

text \<open>
  The rule that the loop of lines 127 to 142 follows, on the text after the opening
  delimiter, with \<open>n\<close> backslashes pending: a backslash is counted; any other character
  met while the count is positive, the delimiter included, is emitted after \<open>n div 2\<close>
  backslashes and the count is reset; the delimiter met while the count is zero ends the
  pattern. The result is the pattern text and the text after the closing delimiter, or
  \<open>None\<close> when no delimiter closes the pattern.
\<close>

fun scan_rule :: "jschar \<Rightarrow> nat \<Rightarrow> jsstring \<Rightarrow> (jsstring \<times> jsstring) option" where
  "scan_rule d n [] = None"
| "scan_rule d n (c # cs) =
     (if c = BACKSLASH then scan_rule d (n + 1) cs
      else if n > 0 then
        map_option (\<lambda>(p, r). (replicate (n div 2) BACKSLASH @ c # p, r)) (scan_rule d 0 cs)
      else if c = d then Some ([], cs)
      else map_option (\<lambda>(p, r). (c # p, r)) (scan_rule d 0 cs))"

text \<open>
  The rule as the specification words it (section 4.2): a backslash is counted; the
  delimiter met while the count is even ends the pattern, the escaped backslashes before it
  being part of the text; met while the count is odd it is literal; any other character is
  emitted after \<open>n div 2\<close> backslashes and the count is reset.
\<close>

fun spec_scan_rule :: "jschar \<Rightarrow> nat \<Rightarrow> jsstring \<Rightarrow> (jsstring \<times> jsstring) option" where
  "spec_scan_rule d n [] = None"
| "spec_scan_rule d n (c # cs) =
     (if c = BACKSLASH then spec_scan_rule d (n + 1) cs
      else if c = d \<and> even n then Some (replicate (n div 2) BACKSLASH, cs)
      else map_option (\<lambda>(p, r). (replicate (n div 2) BACKSLASH @ c # p, r))
             (spec_scan_rule d 0 cs))"

text \<open>The example line of the specification (section 8).\<close>

definition example_line :: jsstring where
  "example_line = JS ''myFunc'' @ [TAB] @ JS ''foo.c'' @ [TAB] @ JS ''/^void myFunc() {$/;''
     @ [DQUOTE, TAB] @ JS ''kind:f'' @ [TAB] @ JS ''line:42''"

text \<open>
  A tag line with name \<open>x\<close>, file \<open>y\<close> and a given address, and the text of two
  addresses after their opening slash. \<open>escaped_body\<close> is \<open>foo\<close>, one backslash, a slash,
  \<open>bar\<close>, two backslashes, \<open>baz\<close> and the closing slash. \<open>even_body\<close> is \<open>a\<close>, two
  backslashes, a slash, \<open>b\<close> and the closing slash.
\<close>

definition tag_line :: "jsstring \<Rightarrow> jsstring" where
  "tag_line addr = JS ''x'' @ [TAB] @ JS ''y'' @ [TAB] @ addr"

definition escaped_body :: jsstring where
  "escaped_body = JS ''foo'' @ [BACKSLASH] @ JS ''/bar'' @ [BACKSLASH, BACKSLASH] @ JS ''baz/''"

definition even_body :: jsstring where
  "even_body = JS ''a'' @ [BACKSLASH, BACKSLASH] @ JS ''/b/''"

section \<open>Properties of the tag-line parser\<close>

subsection \<open>Searching a string\<close>

lemma index_from_split:
  "index_from c xs i = Some j \<Longrightarrow>
     \<exists>k. j = i + k \<and> k < length xs \<and> xs ! k = c \<and> c \<notin> set (take k xs)"
proof (induction xs arbitrary: i)
  case Nil
  then show ?case by simp
next
  case (Cons x xs)
  show ?case
  proof (cases "x = c")
    case True
    with Cons.prems show ?thesis by auto
  next
    case False
    with Cons.prems have "index_from c xs (Suc i) = Some j" by simp
    from Cons.IH [OF this] obtain k where
      k: "j = Suc i + k" "k < length xs" "xs ! k = c" "c \<notin> set (take k xs)" by blast
    with False have "j = i + Suc k \<and> Suc k < length (x # xs) \<and> (x # xs) ! Suc k = c
        \<and> c \<notin> set (take (Suc k) (x # xs))" by simp
    then show ?thesis by blast
  qed
qed

lemma index_from_first:
  "c \<notin> set ys \<Longrightarrow> index_from c (ys @ c # zs) i = Some (i + length ys)"
  by (induction ys arbitrary: i) auto

lemma indexOf_split:
  assumes "indexOf line c ix = Some j" and "ix \<le> length line"
  shows "ix \<le> j \<and> j < length line \<and> line ! j = c \<and> c \<notin> set (take (j - ix) (drop ix line))"
proof -
  from assms(1) have "index_from c (drop ix line) ix = Some j" by (simp add: indexOf_def)
  from index_from_split [OF this] obtain k where
    k: "j = ix + k" "k < length (drop ix line)" "drop ix line ! k = c"
       "c \<notin> set (take k (drop ix line))" by blast
  with assms(2) show ?thesis by (simp add: add.commute)
qed

lemma indexOf_first:
  "c \<notin> set ys \<Longrightarrow> indexOf (xs @ ys @ c # zs) c (length xs) = Some (length xs + length ys)"
  by (simp add: indexOf_def index_from_first)

lemma two_tabs_split:
  assumes i: "indexOf line TAB 0 = Some i" and j: "indexOf line TAB (i + 1) = Some j"
  shows "line = substr line 0 i @ TAB # substr line (i + 1) (j - i - 1) @ TAB # substr_from line (j + 1)
         \<and> TAB \<notin> set (substr line 0 i) \<and> TAB \<notin> set (substr line (i + 1) (j - i - 1))"
proof -
  from indexOf_split [OF i] have a: "i < length line" "line ! i = TAB" "TAB \<notin> set (take i line)"
    by simp_all
  from a(1) have "i + 1 \<le> length line" by simp
  from indexOf_split [OF j this] have b: "i + 1 \<le> j" "j < length line" "line ! j = TAB"
    "TAB \<notin> set (take (j - (i + 1)) (drop (i + 1) line))" by simp_all
  have l1: "line = take i line @ TAB # drop (Suc i) line"
    using a(1,2) id_take_nth_drop [of i line] by simp
  have "j - Suc i < length (drop (Suc i) line)" using b(1,2) by simp
  from id_take_nth_drop [OF this] b(1,2,3)
  have l2: "drop (Suc i) line = take (j - Suc i) (drop (Suc i) line) @ TAB # drop (Suc j) line"
    by simp
  from l1 l2 have "line = take i line @ TAB # take (j - Suc i) (drop (Suc i) line) @ TAB # drop (Suc j) line"
    by simp
  with a(3) b(4) show ?thesis by (simp add: substr_def substr_from_def)
qed

text \<open>A line with two tabs is cut into name, file and the text of the address.\<close>

lemma parseTagLine_two_tabs:
  assumes "TAB \<notin> set n" and "TAB \<notin> set f"
  shows "parseTagLine (n @ TAB # f @ TAB # pat) = parse_address pat (new_entry\<lparr>name := n, file := f\<rparr>)"
proof -
  let ?line = "n @ TAB # f @ TAB # pat"
  have i: "indexOf ?line TAB 0 = Some (length n)"
    using indexOf_first [of TAB n "[]" "f @ TAB # pat"] assms(1) by simp
  have "indexOf ((n @ [TAB]) @ f @ TAB # pat) TAB (length (n @ [TAB])) = Some (length (n @ [TAB]) + length f)"
    using assms(2) by (rule indexOf_first)
  then have j: "indexOf ?line TAB (length n + 1) = Some (length n + 1 + length f)" by simp
  show ?thesis
    unfolding parseTagLine_def i j option.case Let_def
    by (simp add: substr_def substr_from_def)
qed

subsection \<open>The extension fields leave name, file and pattern alone\<close>

lemma pattern_store_part [simp]:
  "pattern (address (store_part str ix partPos splitPos entry)) = pattern (address entry)"
  by (simp add: store_part_def set_field_def Let_def)

lemma name_store_part [simp]:
  "name (store_part str ix partPos splitPos entry) = name entry"
  by (simp add: store_part_def set_field_def Let_def)

lemma file_store_part [simp]:
  "file (store_part str ix partPos splitPos entry) = file entry"
  by (simp add: store_part_def set_field_def Let_def)

lemma parseExtensionFields_from_keeps:
  "pattern (address (parseExtensionFields_from str ix entry)) = pattern (address entry) \<and>
   name (parseExtensionFields_from str ix entry) = name entry \<and>
   file (parseExtensionFields_from str ix entry) = file entry"
proof (induction str ix entry rule: parseExtensionFields_from.induct)
  case (1 str ix entry)
  show ?case
  proof (cases "ix < length str")
    case True
    with 1 show ?thesis
      by (subst (1 2 3) parseExtensionFields_from.simps) (simp add: Let_def)
  next
    case False
    then show ?thesis by (simp add: parseExtensionFields_from.simps)
  qed
qed

lemma finish_entry_props:
  "valid (finish_entry pat ix entry) \<and>
   name (finish_entry pat ix entry) = name entry \<and>
   file (finish_entry pat ix entry) = file entry \<and>
   pattern (address (finish_entry pat ix entry)) = pattern (address entry)"
  by (simp add: finish_entry_def Let_def parseExtensionFields_def parseExtensionFields_from_keeps)

text \<open>
  The address either fails, and the entry is returned as it was, or it is read, and the
  entry is valid with its name and file unchanged.
\<close>

lemma parse_address_cases:
  "parse_address pat e = e \<or>
   (pat \<noteq> [] \<and> valid (parse_address pat e) \<and> name (parse_address pat e) = name e
      \<and> file (parse_address pat e) = file e)"
proof (cases "length pat = 0")
  case True
  then show ?thesis by (simp add: parse_address_def)
next
  case ne: False
  show ?thesis
  proof (cases "pat ! 0 = SLASH \<or> pat ! 0 = QMARK")
    case True
    obtain q pp where sc: "scan_pattern pat (pat ! 0) 1 0 [] = (q, pp)" by force
    show ?thesis
    proof (cases "q < length pat")
      case lt: True
      from ne True sc lt have "parse_address pat e = finish_entry pat (q + 1)
                  (e\<lparr>address := (address e)\<lparr>pattern := pp\<rparr>\<rparr>)"
        by (simp add: parse_address_def Let_def)
      with finish_entry_props [of pat "q + 1" "e\<lparr>address := (address e)\<lparr>pattern := pp\<rparr>\<rparr>"] ne
      show ?thesis by simp
    next
      case False
      with ne True sc have "parse_address pat e = e" by (simp add: parse_address_def Let_def)
      then show ?thesis ..
    qed
  next
    case np: False
    show ?thesis
    proof (cases "isdigit (pat ! 0)")
      case True
      with ne np have "parse_address pat e = finish_entry pat (skip_digits pat 0)
         (e\<lparr>address := (address e)\<lparr>lineNumber := parseInt pat\<rparr>\<rparr>)"
        by (simp add: parse_address_def)
      with finish_entry_props [of pat "skip_digits pat 0"
                  "e\<lparr>address := (address e)\<lparr>lineNumber := parseInt pat\<rparr>\<rparr>"] ne
      show ?thesis by simp
    next
      case False
      with ne np have "parse_address pat e = e" by (simp add: parse_address_def)
      then show ?thesis ..
    qed
  qed
qed

subsection \<open>The example line\<close>

text \<open>
  C1. The example line of the specification parses to name \<open>myFunc\<close>, file \<open>foo.c\<close>,
  pattern \<open>^void myFunc() {$\<close>, kind \<open>f\<close>, line number 42 (from the extension field
  \<open>line:42\<close>) and \<open>valid = true\<close>.
\<close>

theorem parseTagLine_example:
  "name (parseTagLine example_line) = JS ''myFunc'' \<and>
   file (parseTagLine example_line) = JS ''foo.c'' \<and>
   pattern (address (parseTagLine example_line)) = JS ''^void myFunc() {$'' \<and>
   kind (parseTagLine example_line) = Some (JS ''f'') \<and>
   lineNumber (address (parseTagLine example_line)) = Some 42 \<and>
   valid (parseTagLine example_line)"
  by code_simp

subsection \<open>Validity, name and file\<close>

text \<open>
  C3, as the code has it. \<open>parseTagLine\<close> is a total function with no failing branch.
  A valid entry comes from a line with two tabs and a non-empty text after the second; its
  name is the text before the first tab and its file the text between the two, and either
  may be empty. An invalid entry holds the name and file read so far and the initial value
  of every other field.
\<close>

theorem parseTagLine_total:
  "(valid (parseTagLine line) \<longrightarrow>
      (\<exists>rest. rest \<noteq> [] \<and>
         line = name (parseTagLine line) @ TAB # file (parseTagLine line) @ TAB # rest \<and>
         TAB \<notin> set (name (parseTagLine line)) \<and> TAB \<notin> set (file (parseTagLine line)))) \<and>
   (\<not> valid (parseTagLine line) \<longrightarrow>
      parseTagLine line
        = new_entry\<lparr>name := name (parseTagLine line), file := file (parseTagLine line)\<rparr>)"
proof (cases "indexOf line TAB 0")
  case None
  then have "parseTagLine line = new_entry" by (simp add: parseTagLine_def)
  then show ?thesis by (simp add: new_entry_def)
next
  case (Some i)
  show ?thesis
  proof (cases "indexOf line TAB (i + 1)")
    case None
    with Some have "parseTagLine line = new_entry\<lparr>name := substr line 0 i\<rparr>"
      by (simp add: parseTagLine_def)
    then show ?thesis by (simp add: new_entry_def)
  next
    case j: (Some j)
    define n where "n = substr line 0 i"
    define f where "f = substr line (i + 1) (j - i - 1)"
    define pat where "pat = substr_from line (j + 1)"
    define e where "e = new_entry\<lparr>name := n, file := f\<rparr>"
    from two_tabs_split [OF Some j]
    have sp: "line = n @ TAB # f @ TAB # pat" "TAB \<notin> set n" "TAB \<notin> set f"
      by (simp_all add: n_def f_def pat_def)
    have inv: "\<not> valid e" "name e = n" "file e = f" "e = new_entry\<lparr>name := name e, file := file e\<rparr>"
      by (simp_all add: e_def new_entry_def)
    have pt: "parseTagLine line = parse_address pat e"
      using parseTagLine_two_tabs [OF sp(2,3), of pat] sp(1) by (simp add: e_def)
    from parse_address_cases [of pat e] show ?thesis
    proof
      assume "parse_address pat e = e"
      with pt inv show ?thesis by simp
    next
      assume "pat \<noteq> [] \<and> valid (parse_address pat e) \<and> name (parse_address pat e) = name e
        \<and> file (parse_address pat e) = file e"
      with pt inv(2,3) sp show ?thesis by auto
    qed
  qed
qed

theorem parseTagLine_total_witness:
  "valid (parseTagLine example_line) \<and> \<not> valid (parseTagLine (JS ''myFunc'')) \<and>
   (\<exists>rest. rest \<noteq> [] \<and> example_line = JS ''myFunc'' @ TAB # JS ''foo.c'' @ TAB # rest) \<and>
   parseTagLine (JS ''myFunc'') = new_entry"
proof -
  have v: "valid (parseTagLine example_line)" by code_simp
  have n: "name (parseTagLine example_line) = JS ''myFunc''" by code_simp
  have f: "file (parseTagLine example_line) = JS ''foo.c''" by code_simp
  have i: "\<not> valid (parseTagLine (JS ''myFunc''))" by code_simp
  have n0: "name (parseTagLine (JS ''myFunc'')) = []" by code_simp
  have f0: "file (parseTagLine (JS ''myFunc'')) = []" by code_simp
  from parseTagLine_total [of example_line] v n f
  have "\<exists>rest. rest \<noteq> [] \<and> example_line = JS ''myFunc'' @ TAB # JS ''foo.c'' @ TAB # rest"
    by auto
  moreover from parseTagLine_total [of "JS ''myFunc''"] i n0 f0
  have "parseTagLine (JS ''myFunc'') = new_entry" by (simp add: new_entry_def)
  ultimately show ?thesis using v i by simp
qed

text \<open>
  The line of two tabs and the digit 1 is a valid entry whose name and file are empty:
  valid entries do not all have a non-empty name and file.
\<close>

theorem parseTagLine_empty_name:
  "valid (parseTagLine [TAB, TAB, 0x31]) \<and> name (parseTagLine [TAB, TAB, 0x31]) = []
   \<and> file (parseTagLine [TAB, TAB, 0x31]) = []"
  by code_simp

subsection \<open>The pattern scan\<close>

lemma shift_half:
  "n < 2 ^ 32 \<Longrightarrow> unat (drop_bit 1 (word_of_nat n :: 32 word)) = n div 2"
proof -
  assume n: "n < 2 ^ 32"
  have "unat (drop_bit 1 (word_of_nat n :: 32 word)) = drop_bit 1 (unat (word_of_nat n :: 32 word))"
    by (rule unat_drop_bit_eq)
  also have "unat (word_of_nat n :: 32 word) = n"
    using n by (simp add: unat_of_nat)
  finally show ?thesis by (simp add: drop_bit_eq_div)
qed

lemma scan_pattern_Some:
  "ix \<le> length pat \<Longrightarrow> bsc + (length pat - ix) < 2 ^ 32 \<Longrightarrow>
   scan_rule d bsc (drop ix pat) = Some (p, r) \<Longrightarrow>
   scan_pattern pat d ix bsc acc = (length pat - Suc (length r), acc @ p)"
proof (induction pat d ix bsc acc arbitrary: p rule: scan_pattern.induct)
  case (1 pat d ix bsc acc)
  show ?case
  proof (cases "ix < length pat")
    case False
    with "1.prems" show ?thesis by simp
  next
    case True
    then have dr: "drop ix pat = pat ! ix # drop (Suc ix) pat"
      by (simp add: Cons_nth_drop_Suc)
    have b: "bsc < 2 ^ 32" using "1.prems"(2) by simp
    show ?thesis
    proof (cases "pat ! ix = BACKSLASH")
      case bs: True
      from "1.prems"(3) dr bs have "scan_rule d (bsc + 1) (drop (ix + 1) pat) = Some (p, r)"
        by simp
      moreover have "bsc + 1 + (length pat - (ix + 1)) < 2 ^ 32" using "1.prems"(2) True by simp
      ultimately have "scan_pattern pat d (ix + 1) (bsc + 1) acc = (length pat - Suc (length r), acc @ p)"
        using "1.IH"(1) [OF True bs] True by simp
      with True bs show ?thesis by (subst scan_pattern.simps) simp
    next
      case nbs: False
      show ?thesis
      proof (cases "bsc > 0")
        case pos0: True
        from "1.prems"(3) dr nbs pos0 obtain p' where
          p': "scan_rule d 0 (drop (ix + 1) pat) = Some (p', r)"
              "p = replicate (bsc div 2) BACKSLASH @ pat ! ix # p'"
          by (auto split: if_splits)
        have "0 + (length pat - (ix + 1)) < (2::nat) ^ 32" using "1.prems"(2) by simp
        with p'(1) True "1.IH"(2) [OF True nbs pos0]
        have "scan_pattern pat d (ix + 1) 0
                (acc @ replicate (unat (drop_bit 1 (word_of_nat bsc :: 32 word))) BACKSLASH @ [pat ! ix])
              = (length pat - Suc (length r),
                 (acc @ replicate (unat (drop_bit 1 (word_of_nat bsc :: 32 word))) BACKSLASH @ [pat ! ix]) @ p')"
          by simp
        with True nbs pos0 p'(2) shift_half [OF b] show ?thesis
          by (subst scan_pattern.simps) simp
      next
        case z: False
        show ?thesis
        proof (cases "pat ! ix = d")
          case True
          with "1.prems"(3) dr nbs z have "p = []" "r = drop (Suc ix) pat" by auto
          with True nbs z \<open>ix < length pat\<close> show ?thesis
            by (subst scan_pattern.simps) simp
        next
          case nd: False
          from "1.prems"(3) dr nbs z nd obtain p' where
            p': "scan_rule d 0 (drop (ix + 1) pat) = Some (p', r)" "p = pat ! ix # p'"
            by (auto split: if_splits)
          have "bsc + (length pat - (ix + 1)) < (2::nat) ^ 32" using "1.prems"(2) by simp
          with p'(1) True z "1.IH"(3) [OF True nbs z nd]
          have "scan_pattern pat d (ix + 1) bsc (acc @ [pat ! ix])
                  = (length pat - Suc (length r), (acc @ [pat ! ix]) @ p')"
            by simp
          with True nbs z nd p'(2) show ?thesis
            by (subst scan_pattern.simps) simp
        qed
      qed
    qed
  qed
qed

lemma scan_pattern_None:
  "ix \<le> length pat \<Longrightarrow> scan_rule d bsc (drop ix pat) = None \<Longrightarrow>
   fst (scan_pattern pat d ix bsc acc) = length pat"
proof (induction pat d ix bsc acc rule: scan_pattern.induct)
  case (1 pat d ix bsc acc)
  show ?case
  proof (cases "ix < length pat")
    case False
    with "1.prems" show ?thesis by (subst scan_pattern.simps) simp
  next
    case True
    then have dr: "drop ix pat = pat ! ix # drop (Suc ix) pat"
      by (simp add: Cons_nth_drop_Suc)
    from "1.prems"(2) dr have r:
      "pat ! ix = BACKSLASH \<Longrightarrow> scan_rule d (bsc + 1) (drop (ix + 1) pat) = None"
      "pat ! ix \<noteq> BACKSLASH \<Longrightarrow> bsc > 0 \<Longrightarrow> scan_rule d 0 (drop (ix + 1) pat) = None"
      "pat ! ix \<noteq> BACKSLASH \<Longrightarrow> \<not> bsc > 0 \<Longrightarrow> pat ! ix \<noteq> d"
      "pat ! ix \<noteq> BACKSLASH \<Longrightarrow> \<not> bsc > 0 \<Longrightarrow> scan_rule d 0 (drop (ix + 1) pat) = None"
      by (auto split: if_splits)
    show ?thesis
    proof (cases "pat ! ix = BACKSLASH")
      case bs: True
      with True "1.IH"(1) [OF True bs] r(1) show ?thesis
        by (subst scan_pattern.simps) simp
    next
      case nbs: False
      show ?thesis
      proof (cases "bsc > 0")
        case pos0: True
        with True nbs "1.IH"(2) [OF True nbs pos0] r(2) show ?thesis
          by (subst scan_pattern.simps) simp
      next
        case z: False
        with True nbs "1.IH"(3) [OF True nbs z r(3) [OF nbs z]] r(3,4) show ?thesis
          by (subst scan_pattern.simps) simp
      qed
    qed
  qed
qed

text \<open>
  C2, as the code has it. For a line with name, file and an address that opens with a
  slash or a question mark, the entry follows \<open>scan_rule\<close>: a backslash is counted; the
  delimiter ends the pattern only when no backslash is pending; every other character, and
  the delimiter whenever backslashes are pending, is emitted after half as many
  backslashes. With no closing delimiter the entry is invalid.
\<close>

theorem parseTagLine_scan_rule:
  assumes "TAB \<notin> set n" and "TAB \<notin> set f" and "d = SLASH \<or> d = QMARK"
    and "length body < 2 ^ 32"
  shows "case scan_rule d 0 body of
           None \<Rightarrow> \<not> valid (parseTagLine (n @ TAB # f @ TAB # d # body))
         | Some (p, rest) \<Rightarrow>
             valid (parseTagLine (n @ TAB # f @ TAB # d # body)) \<and>
             pattern (address (parseTagLine (n @ TAB # f @ TAB # d # body))) = p"
proof -
  define e where "e = new_entry\<lparr>name := n, file := f\<rparr>"
  define pat where "pat = d # body"
  have pt: "parseTagLine (n @ TAB # f @ TAB # d # body) = parse_address pat e"
    using parseTagLine_two_tabs [OF assms(1,2)] by (simp add: e_def pat_def)
  have d0: "pat ! 0 = d" "length pat \<noteq> 0" "pat ! 0 = SLASH \<or> pat ! 0 = QMARK"
    using assms(3) by (simp_all add: pat_def)
  obtain q pp where sc: "scan_pattern pat d 1 0 [] = (q, pp)" by force
  have pa: "parse_address pat e =
      (if q < length pat
       then finish_entry pat (q + 1) (e\<lparr>address := (address e)\<lparr>pattern := pp\<rparr>\<rparr>) else e)"
    using d0 sc by (simp add: parse_address_def Let_def)
  have ne: "\<not> valid e" by (simp add: e_def new_entry_def)
  show ?thesis
  proof (cases "scan_rule d 0 body")
    case None
    then have "scan_rule d 0 (drop 1 pat) = None" by (simp add: pat_def)
    from scan_pattern_None [OF _ this, of "[]"] sc have "q = length pat" by (simp add: pat_def)
    with pa pt ne None show ?thesis by simp
  next
    case (Some pr)
    obtain p r where pr: "pr = (p, r)" by (cases pr)
    with Some have s: "scan_rule d 0 (drop 1 pat) = Some (p, r)" by (simp add: pat_def)
    have "0 + (length pat - 1) < (2::nat) ^ 32" using assms(4) by (simp add: pat_def)
    from scan_pattern_Some [OF _ this s, of "[]"] sc
    have q: "q = length pat - Suc (length r)" "pp = p" by (simp_all add: pat_def)
    then have "q < length pat" by (simp add: pat_def)
    with pa pt have "parseTagLine (n @ TAB # f @ TAB # d # body)
        = finish_entry pat (q + 1) (e\<lparr>address := (address e)\<lparr>pattern := pp\<rparr>\<rparr>)" by simp
    with finish_entry_props [of pat "q + 1" "e\<lparr>address := (address e)\<lparr>pattern := pp\<rparr>\<rparr>"]
      q(2) Some pr show ?thesis by simp
  qed
qed

text \<open>
  At the address \<open>escaped_body\<close> the rule gives the pattern \<open>foo/bar\<close>, one backslash,
  \<open>baz\<close>: one literal slash and one literal backslash.
\<close>

theorem parseTagLine_scan_rule_witness:
  "valid (parseTagLine (tag_line (SLASH # escaped_body))) \<and>
   pattern (address (parseTagLine (tag_line (SLASH # escaped_body))))
     = JS ''foo/bar'' @ [BACKSLASH] @ JS ''baz''"
proof -
  have t: "TAB \<notin> set (JS ''x'')" "TAB \<notin> set (JS ''y'')" by (simp_all add: JS_def)
  have l: "length escaped_body < 2 ^ 32" by (simp add: escaped_body_def JS_def)
  have s: "scan_rule SLASH 0 escaped_body = Some (JS ''foo/bar'' @ [BACKSLASH] @ JS ''baz'', [])"
    by (simp add: escaped_body_def JS_def)
  have e: "tag_line (SLASH # escaped_body) = JS ''x'' @ TAB # JS ''y'' @ TAB # SLASH # escaped_body"
    by (simp add: tag_line_def)
  from parseTagLine_scan_rule [OF t _ l, of SLASH] s e show ?thesis by simp
qed

text \<open>
  At the address \<open>even_body\<close> the slash that follows two backslashes does not end the
  pattern, as the rule of the specification would have it: the code reads on to the last
  slash and returns \<open>a\<close>, one backslash, a slash and \<open>b\<close>.
\<close>

theorem scan_even_count_counterexample:
  "pattern (address (parseTagLine (tag_line (SLASH # even_body))))
     = JS ''a'' @ [BACKSLASH] @ JS ''/b'' \<and>
   spec_scan_rule SLASH 0 even_body = Some (JS ''a'' @ [BACKSLASH], JS ''b/'') \<and>
   scan_rule SLASH 0 even_body \<noteq> spec_scan_rule SLASH 0 even_body"
  by code_simp

section \<open>Properties of the line reader\<close>

subsection \<open>One call\<close>

lemma drain_Some: "drain ls = (Some l, rest) \<Longrightarrow> l \<noteq> []"
  by (induction ls rule: drain.induct) (auto split: if_splits)

lemma drain_None: "drain ls = (None, rest) \<Longrightarrow> length rest \<le> 1"
  by (induction ls rule: drain.induct) (auto split: if_splits)

lemma fs_read_length:
  "fs_read content buffer position = (n, buf) \<Longrightarrow>
     length buf = length buffer \<and> n = min (length buffer) (length content - position)"
  by (auto simp: fs_read_def Let_def)

lemma read_chunk_fields:
  "size_bytes (read_chunk content w h) = size_bytes h \<and>
   length (readBuffer (read_chunk content w h)) = length (readBuffer h) \<and>
   workingPos (read_chunk content w h)
     = Some (w + min (length (readBuffer h)) (length content - w))"
  by (auto simp: read_chunk_def fs_read_def Let_def split: prod.splits)

lemma unread_Some:
  "unread h = Some w \<Longrightarrow> workingPos h = Some w \<and> (\<exists>s. size_bytes h = Some s \<and> w < s)"
  by (auto simp: unread_def split: option.splits if_splits)

lemma unread_lines [simp]: "unread (h\<lparr>lines := ls\<rparr>) = unread h"
  by (simp add: unread_def)

lemma readAtLeastALine_end:
  "unread h = None \<Longrightarrow> lines h = [] \<Longrightarrow> readAtLeastALine content h = Some (None, h)"
  by (subst readAtLeastALine.simps) simp

text \<open>
  C10. On a handle with a buffer that is not empty and a size within the file,
  \<open>readTagLine\<close> returns, and when the line it returns is empty nothing is left: the queue is
  empty, no byte is unread, and the next call gives the end of the stream. The lines taken
  from the queue while it holds more than one are never empty (\<open>drain_Some\<close>).
\<close>

theorem readTagLine_no_blank:
  assumes "0 < length (readBuffer h)" and "\<forall>s. size_bytes h = Some s \<longrightarrow> s \<le> length content"
  shows "\<exists>r h'. readTagLine content h = Some (r, h') \<and>
           (r = Some [] \<longrightarrow>
              lines h' = [] \<and> unread h' = None \<and> readTagLine content h' = Some (None, h'))"
  using assms
proof (induction "remaining h" arbitrary: h rule: less_induct)
  case less
  obtain r0 rest where dr: "drain (lines h) = (r0, rest)" by force
  show ?case
  proof (cases r0)
    case (Some line)
    with dr have "readAtLeastALine content h = Some (Some line, h\<lparr>lines := rest\<rparr>)"
      by (subst readAtLeastALine.simps) simp
    moreover from dr Some have "line \<noteq> []" by (simp add: drain_Some)
    ultimately show ?thesis by (simp add: readTagLine_def)
  next
    case None
    show ?thesis
    proof (cases "unread h")
      case (Some w)
      define h2 where "h2 = read_chunk content w (h\<lparr>lines := rest\<rparr>)"
      from unread_Some [OF Some] obtain s where
        s: "workingPos h = Some w" "size_bytes h = Some s" "w < s" by blast
      with less.prems have le: "s \<le> length content" by simp
      have f: "size_bytes h2 = Some s" "length (readBuffer h2) = length (readBuffer h)"
        "workingPos h2 = Some (w + min (length (readBuffer h)) (length content - w))"
        using read_chunk_fields [of content w "h\<lparr>lines := rest\<rparr>"] s by (simp_all add: h2_def)
      define br where "br = min (length (readBuffer h)) (length content - w)"
      have br: "0 < br" using less.prems(1) s(3) le by (simp add: br_def)
      have rh: "remaining h = s - w" using Some s by (simp add: remaining_def)
      have "remaining h2 \<le> s - (w + br)"
        using f(1,3) by (simp add: remaining_def unread_def br_def)
      with br rh s(3) have "remaining h2 < remaining h" by arith
      from less.hyps [OF this] f less.prems s
      have "\<exists>r h'. readTagLine content h2 = Some (r, h') \<and>
           (r = Some [] \<longrightarrow>
              lines h' = [] \<and> unread h' = None \<and> readTagLine content h' = Some (None, h'))"
        by simp
      moreover have "readAtLeastALine content h = readAtLeastALine content h2"
        using dr None Some by (subst readAtLeastALine.simps) (simp add: h2_def)
      ultimately show ?thesis by (simp add: readTagLine_def)
    next
      case un: None
      show ?thesis
      proof (cases rest)
        case Nil
        with dr None un have "readAtLeastALine content h = Some (None, h\<lparr>lines := []\<rparr>)"
          by (subst readAtLeastALine.simps) simp
        then show ?thesis by (simp add: readTagLine_def)
      next
        case (Cons l ls)
        with drain_None [of "lines h" rest] dr None have ls: "ls = []" by simp
        with dr None un Cons
        have e: "readAtLeastALine content h = Some (Some l, h\<lparr>lines := []\<rparr>)"
          by (subst readAtLeastALine.simps) simp
        have "readAtLeastALine content (h\<lparr>lines := []\<rparr>) = Some (None, h\<lparr>lines := []\<rparr>)"
          using un by (simp add: readAtLeastALine_end)
        with e un show ?thesis by (simp add: readTagLine_def)
      qed
    qed
  qed
qed

theorem readTagLine_no_blank_witness:
  "0 < length (readBuffer (opened (replicate 1024 0) 5)) \<and>
   size_bytes (opened (replicate 1024 0) 5) = Some 5 \<and> 5 \<le> length blank_file \<and>
   (\<exists>r h'. readTagLine blank_file (opened (replicate 1024 0) 5) = Some (r, h') \<and>
      (r = Some [] \<longrightarrow>
         lines h' = [] \<and> unread h' = None \<and> readTagLine blank_file h' = Some (None, h')))"
proof -
  have a: "0 < length (readBuffer (opened (replicate 1024 0) 5))"
    by (simp add: opened_def new_CTags_def)
  have s: "size_bytes (opened (replicate 1024 0) 5) = Some 5"
    by (simp add: opened_def new_CTags_def)
  have l: "5 \<le> length blank_file" by (simp add: blank_file_def BYTES_def)
  from s l have b: "\<forall>s. size_bytes (opened (replicate 1024 0) 5) = Some s \<longrightarrow> s \<le> length blank_file"
    by simp
  from readTagLine_no_blank [OF a b] a s l show ?thesis by blast
qed

section \<open>Properties of the locator\<close>

subsection \<open>One directory\<close>

lemma foldl_open_match_Some [simp]: "foldl (open_match env d) (Some h) ms = Some h"
  by (induction ms) (simp_all add: open_match_def)

lemma open_match_None:
  "open_match env d None m =
     (case fs_open env (join d m) of
        Inr fd' \<Rightarrow> Some (new_CTags (join d m) fd' (alloc_unsafe env READ_BUFFER_SIZE))
      | Inl e \<Rightarrow> None)"
  by (simp add: open_match_def Let_def split: sum.splits)

lemma foldl_open_None:
  "foldl (open_match env d) None ms = None \<longleftrightarrow> (\<forall>m \<in> set ms. isl (fs_open env (join d m)))"
  by (induction ms) (auto simp: open_match_None split: sum.splits)

lemma foldl_open_Some:
  "foldl (open_match env d) None ms = Some h \<Longrightarrow>
     \<exists>pre m post fd'. ms = pre @ m # post \<and> (\<forall>m' \<in> set pre. isl (fs_open env (join d m'))) \<and>
       fs_open env (join d m) = Inr fd' \<and>
       h = new_CTags (join d m) fd' (alloc_unsafe env READ_BUFFER_SIZE)"
proof (induction ms)
  case Nil
  then show ?case by simp
next
  case (Cons a ms)
  show ?case
  proof (cases "fs_open env (join d a)")
    case (Inr fd')
    with Cons.prems have "h = new_CTags (join d a) fd' (alloc_unsafe env READ_BUFFER_SIZE)"
      by (simp add: open_match_None)
    with Inr have "a # ms = [] @ a # ms \<and> (\<forall>m' \<in> set []. isl (fs_open env (join d m'))) \<and>
       fs_open env (join d a) = Inr fd' \<and>
       h = new_CTags (join d a) fd' (alloc_unsafe env READ_BUFFER_SIZE)" by simp
    then show ?thesis by blast
  next
    case (Inl e)
    with Cons.prems have "foldl (open_match env d) None ms = Some h"
      by (simp add: open_match_None)
    from Cons.IH [OF this] obtain pre m post fd' where
      p: "ms = pre @ m # post" "\<forall>m' \<in> set pre. isl (fs_open env (join d m'))"
         "fs_open env (join d m) = Inr fd'"
         "h = new_CTags (join d m) fd' (alloc_unsafe env READ_BUFFER_SIZE)" by blast
    with Inl have "a # ms = (a # pre) @ m # post \<and>
       (\<forall>m' \<in> set (a # pre). isl (fs_open env (join d m'))) \<and>
       fs_open env (join d m) = Inr fd' \<and>
       h = new_CTags (join d m) fd' (alloc_unsafe env READ_BUFFER_SIZE)" by simp
    then show ?thesis by blast
  qed
qed

lemma foldl_open_first:
  "\<forall>m' \<in> set pre. isl (fs_open env (join d m')) \<Longrightarrow> fs_open env (join d m) = Inr fd' \<Longrightarrow>
   foldl (open_match env d) None (pre @ m # post)
     = Some (new_CTags (join d m) fd' (alloc_unsafe env READ_BUFFER_SIZE))"
  by (induction pre) (auto simp: open_match_None split: sum.splits)
lemma ctagsFinder_level:
  "ctagsFinder env tagFilePattern dir =
     (case fs_readdir env dir of
        Inl e \<Rightarrow> Inl e
      | Inr files \<Rightarrow>
          (case level env tagFilePattern dir files of
             Some h \<Rightarrow> Inr (Some h)
           | None \<Rightarrow> if dir = [] then Inr None else ctagsFinder env tagFilePattern (butlast dir)))"
proof -
  have d: "butlast dir = dir \<longleftrightarrow> dir = []"
    by (cases dir rule: rev_cases) auto
  show ?thesis
    by (subst ctagsFinder.simps)
       (auto simp: level_def Let_def d dirname_def Option.is_none_def split: sum.splits option.splits)
qed

lemma level_None:
  "fs_readdir env dir = Inr files \<Longrightarrow>
   level env tagFilePattern dir files = None \<longleftrightarrow> no_match_opens env tagFilePattern dir"
  by (auto simp: level_def foldl_open_None no_match_opens_def)

lemma level_Some:
  assumes "fs_readdir env dir = Inr files" and "level env tagFilePattern dir files = Some h"
  shows "found_at env tagFilePattern dir h"
proof -
  let ?ms = "sort (filter (\<lambda>p. minimatch env p tagFilePattern) files)"
  from assms(2) have "foldl (open_match env dir) None ?ms = Some h" by (simp add: level_def)
  from foldl_open_Some [OF this] obtain pre m post fd' where
    p: "?ms = pre @ m # post" "\<forall>m' \<in> set pre. isl (fs_open env (join dir m'))"
       "fs_open env (join dir m) = Inr fd'"
       "h = new_CTags (join dir m) fd' (alloc_unsafe env READ_BUFFER_SIZE)" by blast
  have "m \<in> set ?ms" using p(1) by simp
  then have m: "m \<in> set files" "minimatch env m tagFilePattern" by auto
  have srt: "sorted (pre @ m # post)" using p(1) sorted_sort [of "filter (\<lambda>p. minimatch env p tagFilePattern) files"] by simp
  have "\<forall>m' \<in> set files. minimatch env m' tagFilePattern \<and> m' < m
            \<longrightarrow> isl (fs_open env (join dir m'))"
  proof (intro ballI impI)
    fix m' assume a: "m' \<in> set files" "minimatch env m' tagFilePattern \<and> m' < m"
    then have "m' \<in> set ?ms" by simp
    with p(1) have "m' \<in> set pre \<or> m' = m \<or> m' \<in> set post" by auto
    moreover have "m' \<notin> set post" using srt a(2) by (auto simp: sorted_append)
    ultimately have "m' \<in> set pre" using a(2) by auto
    with p(2) show "isl (fs_open env (join dir m'))" by simp
  qed
  with assms(1) m p(3,4) show ?thesis unfolding found_at_def by blast
qed

lemma level_found:
  assumes "fs_readdir env dir = Inr files" and "m \<in> set files"
    and "minimatch env m tagFilePattern" and "fs_open env (join dir m) = Inr fd'"
    and "\<forall>m' \<in> set files. minimatch env m' tagFilePattern \<and> m' < m
            \<longrightarrow> isl (fs_open env (join dir m'))"
  shows "level env tagFilePattern dir files
           = Some (new_CTags (join dir m) fd' (alloc_unsafe env READ_BUFFER_SIZE))"
proof -
  let ?ms = "sort (filter (\<lambda>p. minimatch env p tagFilePattern) files)"
  have "m \<in> set ?ms" using assms(2,3) by simp
  then obtain pre post where sp: "?ms = pre @ m # post" "m \<notin> set pre"
    by (meson split_list_first)
  have srt: "sorted (pre @ m # post)" using sp(1) sorted_sort [of "filter (\<lambda>p. minimatch env p tagFilePattern) files"] by simp
  have "\<forall>m' \<in> set pre. isl (fs_open env (join dir m'))"
  proof
    fix m' assume a: "m' \<in> set pre"
    then have "m' \<in> set ?ms" using sp(1) by simp
    then have f: "m' \<in> set files" "minimatch env m' tagFilePattern" by auto
    from srt a have "m' \<le> m" by (auto simp: sorted_append)
    moreover from a sp(2) have "m' \<noteq> m" by auto
    ultimately have "m' < m" by simp
    with f assms(5) show "isl (fs_open env (join dir m'))" by simp
  qed
  from foldl_open_first [OF this assms(4)] sp(1) show ?thesis by (simp add: level_def)
qed

subsection \<open>The whole search\<close>

lemma search_outcome_up:
  assumes "search_outcome env pat xs r" and "no_match_opens env pat (xs @ [x])"
  shows "search_outcome env pat (xs @ [x]) r"
proof -
  have t: "\<And>j. j \<le> length xs \<Longrightarrow> take j (xs @ [x]) = take j xs" by simp
  have n: "\<And>k j. (\<forall>j. k < j \<and> j \<le> length xs \<longrightarrow> no_match_opens env pat (take j xs)) \<Longrightarrow>
      k < j \<Longrightarrow> j \<le> length (xs @ [x]) \<Longrightarrow> no_match_opens env pat (take j (xs @ [x]))"
  proof -
    fix k j
    assume a: "\<forall>j. k < j \<and> j \<le> length xs \<longrightarrow> no_match_opens env pat (take j xs)"
      and kj: "k < j" and j: "j \<le> length (xs @ [x])"
    show "no_match_opens env pat (take j (xs @ [x]))"
    proof (cases "j \<le> length xs")
      case True
      with a kj t show ?thesis by simp
    next
      case False
      with j have "j = Suc (length xs)" by simp
      with assms(2) show ?thesis by simp
    qed
  qed
  show ?thesis
  proof (cases r)
    case (Inl e)
    with assms(1) obtain k where k: "k \<le> length xs" "fs_readdir env (take k xs) = Inl e"
      "\<forall>j. k < j \<and> j \<le> length xs \<longrightarrow> no_match_opens env pat (take j xs)"
      by (auto simp: search_outcome_def)
    from k(1,2) t have "k \<le> length (xs @ [x]) \<and> fs_readdir env (take k (xs @ [x])) = Inl e" by simp
    with n [OF k(3)] Inl show ?thesis unfolding search_outcome_def by auto
  next
    case (Inr o1)
    show ?thesis
    proof (cases o1)
      case None
      with Inr assms(1) have a: "\<forall>j. 0 < Suc j \<and> j \<le> length xs \<longrightarrow> no_match_opens env pat (take j xs)"
        by (simp add: search_outcome_def)
      have "\<forall>j\<le>length (xs @ [x]). no_match_opens env pat (take j (xs @ [x]))"
      proof (intro allI impI)
        fix j assume j: "j \<le> length (xs @ [x])"
        show "no_match_opens env pat (take j (xs @ [x]))"
        proof (cases "j \<le> length xs")
          case True
          with a t show ?thesis by simp
        next
          case False
          with j have "j = Suc (length xs)" by simp
          with assms(2) show ?thesis by simp
        qed
      qed
      with Inr None show ?thesis by (simp add: search_outcome_def)
    next
      case (Some h)
      with Inr assms(1) obtain k where k: "k \<le> length xs" "found_at env pat (take k xs) h"
        "\<forall>j. k < j \<and> j \<le> length xs \<longrightarrow> no_match_opens env pat (take j xs)"
        by (auto simp: search_outcome_def)
      from k(1,2) t have "k \<le> length (xs @ [x]) \<and> found_at env pat (take k (xs @ [x])) h" by simp
      with n [OF k(3)] Inr Some show ?thesis unfolding search_outcome_def by auto
    qed
  qed
qed

lemma search_outcome_here:
  assumes "fs_readdir env dir = Inl e \<and> r = Inl e \<or>
           (\<exists>h. found_at env pat dir h \<and> r = Inr (Some h)) \<or>
           (dir = [] \<and> no_match_opens env pat dir \<and> r = Inr None)"
  shows "search_outcome env pat dir r"
  using assms unfolding search_outcome_def
  by (auto intro!: exI [of _ "length dir"])

lemma ctagsFinder_outcome: "search_outcome env pat dir (ctagsFinder env pat dir)"
proof (induction dir rule: rev_induct)
  case Nil
  show ?case
  proof (cases "fs_readdir env []")
    case (Inl e)
    then have "ctagsFinder env pat [] = Inl e" by (subst ctagsFinder_level) simp
    with Inl show ?thesis by (intro search_outcome_here) simp
  next
    case (Inr files)
    show ?thesis
    proof (cases "level env pat [] files")
      case None
      with Inr have "ctagsFinder env pat [] = Inr None" by (subst ctagsFinder_level) simp
      with level_None [OF Inr, of pat] None show ?thesis by (intro search_outcome_here) simp
    next
      case (Some h)
      with Inr have "ctagsFinder env pat [] = Inr (Some h)" by (subst ctagsFinder_level) simp
      with level_Some [OF Inr Some] show ?thesis by (intro search_outcome_here) simp
    qed
  qed
next
  case (snoc x xs)
  show ?case
  proof (cases "fs_readdir env (xs @ [x])")
    case (Inl e)
    then have "ctagsFinder env pat (xs @ [x]) = Inl e" by (subst ctagsFinder_level) simp
    with Inl show ?thesis by (intro search_outcome_here) simp
  next
    case (Inr files)
    show ?thesis
    proof (cases "level env pat (xs @ [x]) files")
      case None
      with Inr have "ctagsFinder env pat (xs @ [x]) = ctagsFinder env pat xs"
        by (subst ctagsFinder_level) simp
      with level_None [OF Inr, of pat] None snoc show ?thesis
        by (simp add: search_outcome_up)
    next
      case (Some h)
      with Inr have "ctagsFinder env pat (xs @ [x]) = Inr (Some h)"
        by (subst ctagsFinder_level) simp
      with level_Some [OF Inr Some] show ?thesis by (intro search_outcome_here) simp
    qed
  qed
qed

lemma example_search:
  "findCTagsFile example_env (JS ''/a/b/c'') (JS ''{TAGS,tags}'') = Inr (Some found_handle)"
  by code_simp

lemma example_start:
  "fs_stat example_env (fs_resolve example_env (JS ''/a/b/c'')) = Inr False"
  by code_simp

lemma example_levels:
  "no_match_opens example_env (JS ''{TAGS,tags}'') [JS ''a'', JS ''b'', JS ''c'']"
  "no_match_opens example_env (JS ''{TAGS,tags}'') [JS ''a'', JS ''b'']"
  by (simp_all add: no_match_opens_def example_env_def JS_def)

lemma example_found: "found_at example_env (JS ''{TAGS,tags}'') [JS ''a''] found_handle"
  unfolding found_at_def
  apply (rule exI [of _ "[JS ''tags'', JS ''b'', JS ''TAGS'']"])
  apply (rule exI [of _ "JS ''tags''"])
  apply (rule exI [of _ 3])
  apply (simp add: example_env_def found_handle_def join_def READ_BUFFER_SIZE_def JS_def)
  done

text \<open>
  C7. The search goes one directory at a time from the start directory (the directory of
  the start path when that is a file) towards the root. Its result is a handle made in the
  nearest directory where a matching entry opens, for the first such entry in ascending
  order of the names; "not found" when no matching entry opens in any directory up to the
  root; or the error of the first directory that cannot be listed.
\<close>

theorem findCTagsFile_search:
  assumes "fs_stat env (fs_resolve env searchPath) = Inr isFile"
  shows "search_outcome env tagFilePattern
           (if isFile then dirname (fs_resolve env searchPath) else fs_resolve env searchPath)
           (findCTagsFile env searchPath tagFilePattern)"
  using assms ctagsFinder_outcome by (simp add: findCTagsFile_def Let_def)

theorem findCTagsFile_search_witness:
  "fs_stat example_env (fs_resolve example_env (JS ''/a/b/c'')) = Inr False \<and>
   findCTagsFile example_env (JS ''/a/b/c'') (JS ''{TAGS,tags}'') = Inr (Some found_handle) \<and>
   search_outcome example_env (JS ''{TAGS,tags}'') [JS ''a'', JS ''b'', JS ''c'']
     (Inr (Some found_handle))"
proof -
  have r: "fs_resolve example_env (JS ''/a/b/c'') = [JS ''a'', JS ''b'', JS ''c'']"
    by (simp add: example_env_def)
  from findCTagsFile_search [OF example_start, of "JS ''{TAGS,tags}''"] example_search
    example_start r
  show ?thesis by simp
qed

lemma ctagsFinder_at:
  assumes "k \<le> length dir"
    and "\<forall>j. k < j \<and> j \<le> length dir \<longrightarrow> no_match_opens env pat (take j dir)"
  shows "(fs_readdir env (take k dir) = Inl e \<longrightarrow> ctagsFinder env pat dir = Inl e) \<and>
         (found_at env pat (take k dir) h \<longrightarrow> ctagsFinder env pat dir = Inr (Some h))"
  using assms
proof (induction dir rule: rev_induct)
  case Nil
  have "found_at env pat [] h \<Longrightarrow> ctagsFinder env pat [] = Inr (Some h)"
  proof -
    assume "found_at env pat [] h"
    then obtain files m fd' where f: "fs_readdir env [] = Inr files" "m \<in> set files"
      "minimatch env m pat" "fs_open env (join [] m) = Inr fd'"
      "h = new_CTags (join [] m) fd' (alloc_unsafe env READ_BUFFER_SIZE)"
      "\<forall>m' \<in> set files. minimatch env m' pat \<and> m' < m \<longrightarrow> isl (fs_open env (join [] m'))"
      unfolding found_at_def by blast
    from level_found [OF f(1,2,3,4,6)] f(1,5) show ?thesis
      by (subst ctagsFinder_level) simp
  qed
  moreover have "fs_readdir env [] = Inl e \<Longrightarrow> ctagsFinder env pat [] = Inl e"
    by (subst ctagsFinder_level) simp
  ultimately show ?case by simp
next
  case (snoc x xs)
  show ?case
  proof (cases "k = length (xs @ [x])")
    case True
    have "found_at env pat (xs @ [x]) h \<Longrightarrow> ctagsFinder env pat (xs @ [x]) = Inr (Some h)"
    proof -
      assume "found_at env pat (xs @ [x]) h"
      then obtain files m fd' where f: "fs_readdir env (xs @ [x]) = Inr files" "m \<in> set files"
        "minimatch env m pat" "fs_open env (join (xs @ [x]) m) = Inr fd'"
        "h = new_CTags (join (xs @ [x]) m) fd' (alloc_unsafe env READ_BUFFER_SIZE)"
        "\<forall>m' \<in> set files. minimatch env m' pat \<and> m' < m
            \<longrightarrow> isl (fs_open env (join (xs @ [x]) m'))"
        unfolding found_at_def by blast
      from level_found [OF f(1,2,3,4,6)] f(1,5) show ?thesis
        by (subst ctagsFinder_level) simp
    qed
    moreover have "fs_readdir env (xs @ [x]) = Inl e \<Longrightarrow> ctagsFinder env pat (xs @ [x]) = Inl e"
      by (subst ctagsFinder_level) simp
    ultimately show ?thesis using True by simp
  next
    case False
    with snoc.prems(1) have k: "k \<le> length xs" by simp
    with snoc.prems(2) have "no_match_opens env pat (take (Suc (length xs)) (xs @ [x]))"
      by (metis le_imp_less_Suc length_append_singleton order_refl)
    then have nm: "no_match_opens env pat (xs @ [x])" by simp
    then obtain files where fl: "fs_readdir env (xs @ [x]) = Inr files"
      by (auto simp: no_match_opens_def split: sum.splits)
    with nm level_None [OF fl, of pat] have "level env pat (xs @ [x]) files = None" by simp
    with fl have up: "ctagsFinder env pat (xs @ [x]) = ctagsFinder env pat xs"
      by (subst ctagsFinder_level) simp
    have "\<forall>j. k < j \<and> j \<le> length xs \<longrightarrow> no_match_opens env pat (take j xs)"
    proof (intro allI impI)
      fix j assume j: "k < j \<and> j \<le> length xs"
      then have "k < j \<and> j \<le> length (xs @ [x])" by simp
      with snoc.prems(2) have "no_match_opens env pat (take j (xs @ [x]))" by blast
      with j show "no_match_opens env pat (take j xs)" by simp
    qed
    from snoc.IH [OF k this] up k show ?thesis by simp
  qed
qed

lemma locked_start:
  "fs_stat locked_env (fs_resolve locked_env (JS ''/a/b/c'')) = Inr False"
  by code_simp

text \<open>
  C8. Entries that cannot be opened do not stop the search: when no matching entry opens in
  the directories nearer to the start, the error of listing the next directory is the
  result of the whole search, and a handle made there, after every smaller matching entry
  failed to open, is the result.
\<close>

theorem findCTagsFile_failures:
  assumes "fs_stat env (fs_resolve env searchPath) = Inr isFile"
    and "dir = (if isFile then dirname (fs_resolve env searchPath) else fs_resolve env searchPath)"
    and "k \<le> length dir"
    and "\<forall>j. k < j \<and> j \<le> length dir \<longrightarrow> no_match_opens env tagFilePattern (take j dir)"
  shows "(fs_readdir env (take k dir) = Inl e
            \<longrightarrow> findCTagsFile env searchPath tagFilePattern = Inl e) \<and>
         (found_at env tagFilePattern (take k dir) h
            \<longrightarrow> findCTagsFile env searchPath tagFilePattern = Inr (Some h))"
  using ctagsFinder_at [OF assms(3,4)] assms(1,2) by (simp add: findCTagsFile_def Let_def)

theorem findCTagsFile_failures_witness:
  "fs_open example_env [JS ''a'', JS ''TAGS''] = Inl EACCES \<and>
   found_at example_env (JS ''{TAGS,tags}'') [JS ''a''] found_handle \<and>
   findCTagsFile example_env (JS ''/a/b/c'') (JS ''{TAGS,tags}'') = Inr (Some found_handle) \<and>
   fs_readdir locked_env [JS ''a'', JS ''b''] = Inl EACCES \<and>
   findCTagsFile locked_env (JS ''/a/b/c'') (JS ''{TAGS,tags}'') = Inl EACCES"
proof -
  let ?dir = "[JS ''a'', JS ''b'', JS ''c'']"
  let ?pat = "JS ''{TAGS,tags}''"
  have d: "?dir = (if False then dirname (fs_resolve example_env (JS ''/a/b/c''))
                   else fs_resolve example_env (JS ''/a/b/c''))"
    by (simp add: example_env_def)
  have n1: "\<forall>j. 1 < j \<and> j \<le> length ?dir \<longrightarrow> no_match_opens example_env ?pat (take j ?dir)"
  proof (intro allI impI)
    fix j assume "1 < j \<and> j \<le> length ?dir"
    then have "j = 2 \<or> j = 3" by auto
    with example_levels show "no_match_opens example_env ?pat (take j ?dir)" by auto
  qed
  have f: "found_at example_env ?pat (take 1 ?dir) found_handle" using example_found by simp
  from findCTagsFile_failures [OF example_start d _ n1, of undefined found_handle] f
  have a: "findCTagsFile example_env (JS ''/a/b/c'') ?pat = Inr (Some found_handle)" by simp
  have d2: "?dir = (if False then dirname (fs_resolve locked_env (JS ''/a/b/c''))
                   else fs_resolve locked_env (JS ''/a/b/c''))"
    by (simp add: locked_env_def example_env_def)
  have l3: "no_match_opens locked_env ?pat ?dir"
    by (simp add: no_match_opens_def locked_env_def example_env_def JS_def)
  have n2: "\<forall>j. 2 < j \<and> j \<le> length ?dir \<longrightarrow> no_match_opens locked_env ?pat (take j ?dir)"
  proof (intro allI impI)
    fix j assume "2 < j \<and> j \<le> length ?dir"
    then have "j = 3" by auto
    with l3 show "no_match_opens locked_env ?pat (take j ?dir)" by simp
  qed
  have e: "fs_readdir locked_env (take 2 ?dir) = Inl EACCES"
    by (simp add: locked_env_def)
  from findCTagsFile_failures [OF locked_start d2 _ n2, of EACCES undefined] e
  have b: "findCTagsFile locked_env (JS ''/a/b/c'') ?pat = Inl EACCES" by simp
  have o: "fs_open example_env [JS ''a'', JS ''TAGS''] = Inl EACCES"
    by (simp add: example_env_def JS_def)
  from a b o e example_found show ?thesis by simp
qed

subsection \<open>The handle that is returned\<close>

lemma found_at_fresh:
  "found_at env pat dir h \<Longrightarrow>
     h = new_CTags (tagsFile h) (fd h) (alloc_unsafe env READ_BUFFER_SIZE)"
  by (auto simp: found_at_def new_CTags_def)

lemma read_chunk_keeps:
  "size_bytes (read_chunk content w h) = size_bytes h \<and> fd (read_chunk content w h) = fd h \<and>
   tagsFile (read_chunk content w h) = tagsFile h \<and>
   initialised (read_chunk content w h) = initialised h \<and>
   info (read_chunk content w h) = info h"
  by (auto simp: read_chunk_def Let_def split: prod.splits)

lemma readAtLeastALine_keeps:
  "readAtLeastALine content h = Some y \<Longrightarrow>
     size_bytes (snd y) = size_bytes h \<and> fd (snd y) = fd h \<and> tagsFile (snd y) = tagsFile h \<and>
     initialised (snd y) = initialised h \<and> info (snd y) = info h"
proof (erule readAtLeastALine.raw_induct [rotated], goal_cases)
  case (1 f content h y)
  obtain r0 rest where dr: "drain (lines h) = (r0, rest)" by force
  show ?case
  proof (cases r0)
    case (Some line)
    with 1(2) dr show ?thesis by auto
  next
    case None
    show ?thesis
    proof (cases "unread h")
      case (Some w)
      with 1(2) dr None have "f content (read_chunk content w (h\<lparr>lines := rest\<rparr>)) = Some y"
        by simp
      from 1(1) [OF this] show ?thesis by (simp add: read_chunk_keeps)
    next
      case un: None
      with 1(2) dr None show ?thesis by (auto split: list.splits)
    qed
  qed
qed

lemma tagReader_keeps:
  "tagReader content h = Some h' \<Longrightarrow>
     size_bytes h' = size_bytes h \<and> fd h' = fd h \<and> tagsFile h' = tagsFile h \<and>
     initialised h' = initialised h"
proof (erule tagReader.raw_induct [rotated], goal_cases)
  case (1 f content h h')
  from 1(2) obtain l h1 where r: "readAtLeastALine content h = Some (l, h1)"
    by (auto simp: readTagLine_def split: option.splits)
  from readAtLeastALine_keeps [OF r]
  have k: "size_bytes h1 = size_bytes h \<and> fd h1 = fd h \<and> tagsFile h1 = tagsFile h \<and>
     initialised h1 = initialised h" by simp
  show ?case
  proof (cases l)
    case None
    with 1(2) r k show ?thesis by (simp add: readTagLine_def)
  next
    case (Some line)
    show ?thesis
    proof (cases "line \<noteq> [] \<and> startsWith line PSEUDO_TAG_PREFIX")
      case True
      with 1(2) r Some
      have "f content (h1\<lparr>info := store_pseudo (parseTagLine line) (info h1)\<rparr>) = Some h'"
        by (simp add: readTagLine_def)
      from 1(1) [OF this] k show ?thesis by simp
    next
      case False
      with 1(2) r Some k show ?thesis by (auto simp: readTagLine_def)
    qed
  qed
qed

lemma init_Inr:
  assumes "init env h = Some (Inr h')"
  shows "initialised h' \<and> (\<exists>n. size_bytes h' = Some n \<and> fs_fstat env (fd h') = Inr n)"
proof -
  from assms obtain h1 sz h2 where
    s: "init_state env h = Inr (h1, sz)"
       "readPseudoTags (fs_data env (fd h1)) (h1\<lparr>size_bytes := Some sz\<rparr>) = Some h2"
       "h' = h2\<lparr>initialised := True\<rparr>"
    by (auto simp: init_def split: sum.splits option.splits prod.splits)
  from s(1) have f: "fs_fstat env (fd h1) = Inr sz"
    by (auto simp: init_state_def split: if_splits sum.splits)
  from s(2) obtain h3 where t: "tagReader (fs_data env (fd h1)) (h1\<lparr>size_bytes := Some sz\<rparr>) = Some h3"
    "h2 = h3\<lparr>workingPos := Some 0\<rparr>"
    by (auto simp: readPseudoTags_def split: option.splits)
  from tagReader_keeps [OF t(1)] t(2) s(3) f show ?thesis by simp
qed

text \<open>
  C9, as the code has it. The handle that \<open>findCTagsFile\<close> returns is the constructor's:
  it is not initialised and has no size. \<open>init\<close>, when it is fulfilled, gives a handle that
  is initialised and whose size is the size of the file.
\<close>

theorem findCTagsFile_handle:
  assumes "findCTagsFile env searchPath tagFilePattern = Inr (Some h)"
  shows "h = new_CTags (tagsFile h) (fd h) (alloc_unsafe env READ_BUFFER_SIZE) \<and>
         \<not> initialised h \<and> size_bytes h = None \<and>
         (\<forall>h'. init env h = Some (Inr h') \<longrightarrow>
            initialised h' \<and> (\<exists>n. size_bytes h' = Some n \<and> fs_fstat env (fd h') = Inr n))"
proof -
  from assms obtain dir where "ctagsFinder env tagFilePattern dir = Inr (Some h)"
    by (auto simp: findCTagsFile_def Let_def split: sum.splits)
  with ctagsFinder_outcome [of env tagFilePattern dir]
  obtain k where "found_at env tagFilePattern (take k dir) h"
    by (auto simp: search_outcome_def)
  from found_at_fresh [OF this]
  have f: "h = new_CTags (tagsFile h) (fd h) (alloc_unsafe env READ_BUFFER_SIZE)" .
  then have "\<not> initialised h \<and> size_bytes h = None"
    by (metis CTags.select_convs(9,11) new_CTags_def)
  with f init_Inr show ?thesis by blast
qed

lemma example_header:
  "readPseudoTags header_file (found_handle\<lparr>size_bytes := Some 44\<rparr>) = Some headed_handle"
  by code_simp

lemma example_init: "init example_env found_handle = Some (Inr loaded_handle)"
proof -
  have "fd found_handle = 3" by (simp add: found_handle_def new_CTags_def)
  moreover have "length header_file = 44" by (simp add: header_file_def BYTES_def)
  ultimately have "init_state example_env found_handle = Inr (found_handle, 44)"
    by (simp add: init_state_def example_env_def)
  moreover have "fs_data example_env (fd found_handle) = header_file"
    using \<open>fd found_handle = 3\<close> by (simp add: example_env_def)
  ultimately show ?thesis
    using example_header by (simp add: init_def loaded_handle_def)
qed

theorem findCTagsFile_handle_witness:
  "findCTagsFile example_env (JS ''/a/b/c'') (JS ''{TAGS,tags}'') = Inr (Some found_handle) \<and>
   \<not> initialised found_handle \<and> size_bytes found_handle = None \<and>
   init example_env found_handle = Some (Inr loaded_handle) \<and>
   initialised loaded_handle \<and> size_bytes loaded_handle = Some 44 \<and>
   fs_fstat example_env (fd loaded_handle) = Inr 44"
proof -
  have s: "size_bytes loaded_handle = Some 44"
    by (simp add: loaded_handle_def headed_handle_def)
  from findCTagsFile_handle [OF example_search] example_init s example_search
  show ?thesis by auto
qed

text \<open>
  In the example tree the handle returned for \<open>/a/tags\<close> is not initialised, has no size
  and holds the initial metadata.
\<close>

theorem findCTagsFile_not_initialised:
  "findCTagsFile example_env (JS ''/a/b/c'') (JS ''{TAGS,tags}'') = Inr (Some found_handle) \<and>
   \<not> initialised found_handle \<and> size_bytes found_handle = None \<and>
   info_sort (info found_handle) = Some TAG_UNSORTED"
  using example_search by (simp add: found_handle_def new_CTags_def)

section \<open>The loader and the seek on a buffer that a read does not fill\<close>

text \<open>
  C4. The header of the specification is read by \<open>_readPseudoTags\<close> on a handle with a
  fresh buffer of zeros. The sort mode becomes 1 and the working cursor 0, but the queue
  keeps the text decoded from the rest of the buffer, and the next line read is 980 NUL
  characters followed by the pseudo-tag line. With two entries behind the header, the
  first read after the loader gives the second entry.
\<close>

theorem readPseudoTags_keeps_queue:
  "readPseudoTags header_file (found_handle\<lparr>size_bytes := Some 44\<rparr>) = Some headed_handle \<and>
   info_sort (info headed_handle) = Some TAG_SORTED \<and>
   workingPos headed_handle = Some 0 \<and>
   lines headed_handle = [replicate 980 0] \<and>
   first_read_after_header header_file (found_handle\<lparr>size_bytes := Some 44\<rparr>)
     = Some (Some (replicate 980 0 @ pseudo_line)) \<and>
   first_read_after_header entries_file (found_handle\<lparr>size_bytes := Some 54\<rparr>)
     = Some (Some bar_line)"
proof -
  have a: "map_option fst (readTagLine header_file headed_handle)
             = Some (Some (replicate 980 0 @ pseudo_line))"
    by code_simp
  have b: "first_read_after_header entries_file (found_handle\<lparr>size_bytes := Some 54\<rparr>)
             = Some (Some bar_line)"
    by code_simp
  from a example_header b show ?thesis
    by (simp add: first_read_after_header_def headed_handle_def)
qed

text \<open>
  C5. After \<open>init\<close> on the same file, a seek to byte 35, inside the second line, reads nine
  bytes into the front of the buffer and decodes the whole buffer, with the bytes of the
  first read behind them. The line returned after the discarded one is the first line
  from its tenth byte on: it is no line of the file, and the text it comes from lies
  before byte 35.
\<close>

theorem readTagLineSeek_stale_buffer:
  "init example_env found_handle = Some (Inr loaded_handle) \<and>
   map_option fst (readTagLineSeek header_file 35 loaded_handle) = Some (Some stale_line) \<and>
   split_lines (fst (decoder_write new_decoder header_file)) = [pseudo_line, main_line, []] \<and>
   stale_line \<notin> set [pseudo_line, main_line, []]"
proof -
  have a: "map_option fst (readTagLineSeek header_file 35 loaded_handle) = Some (Some stale_line)"
    by code_simp
  have b: "split_lines (fst (decoder_write new_decoder header_file))
             = [pseudo_line, main_line, []]"
    by code_simp
  have c: "stale_line \<notin> set [pseudo_line, main_line, []]"
    by (simp add: stale_line_def pseudo_line_def main_line_def JS_def)
  from a b c example_init show ?thesis by simp
qed

section \<open>Reading a whole file in chunks\<close>

subsection \<open>Splitting a text that arrives in two parts\<close>

lemma split_lines_nonempty [simp]: "split_lines s \<noteq> []"
  by (induction s rule: split_lines.induct) (auto split: list.splits)

lemma split_lines_Cons:
  "split_lines (c # t) =
     (if c = LF then [] # split_lines t
      else if c = CR \<and> t \<noteq> [] \<and> hd t = LF then [] # split_lines (tl t)
      else (c # hd (split_lines t)) # tl (split_lines t))"
proof (cases t)
  case Nil
  then show ?thesis by simp
next
  case (Cons c' cs)
  obtain l ls where "split_lines (c' # cs) = l # ls"
    using split_lines_nonempty [of "c' # cs"] by (cases "split_lines (c' # cs)") auto
  with Cons show ?thesis by simp
qed

lemma split_lines_append:
  "\<not> (s \<noteq> [] \<and> last s = CR \<and> t \<noteq> [] \<and> hd t = LF) \<Longrightarrow>
   split_lines (s @ t)
     = butlast (split_lines s) @ [last (split_lines s) @ hd (split_lines t)] @ tl (split_lines t)"
proof (induction s rule: length_induct)
  case (1 s)
  show ?case
  proof (cases s)
    case Nil
    then show ?thesis by simp
  next
    case (Cons c cs)
    show ?thesis
    proof (cases "c = LF")
      case True
      have "\<not> (cs \<noteq> [] \<and> last cs = CR \<and> t \<noteq> [] \<and> hd t = LF)"
        using "1.prems" Cons by auto
      with 1 Cons have "split_lines (cs @ t)
        = butlast (split_lines cs) @ [last (split_lines cs) @ hd (split_lines t)] @ tl (split_lines t)"
        by simp
      with True Cons show ?thesis by (simp add: split_lines_Cons)
    next
      case nlf: False
      show ?thesis
      proof (cases "c = CR \<and> cs \<noteq> [] \<and> hd cs = LF")
        case True
        then obtain cs' where cs: "cs = LF # cs'" by (cases cs) auto
        have "\<not> (cs' \<noteq> [] \<and> last cs' = CR \<and> t \<noteq> [] \<and> hd t = LF)"
          using "1.prems" Cons cs by auto
        with 1 Cons cs have "split_lines (cs' @ t)
          = butlast (split_lines cs') @ [last (split_lines cs') @ hd (split_lines t)]
              @ tl (split_lines t)"
          by simp
        with True Cons cs nlf show ?thesis by (simp add: split_lines_Cons)
      next
        case False
        have n: "\<not> (cs \<noteq> [] \<and> last cs = CR \<and> t \<noteq> [] \<and> hd t = LF)"
          using "1.prems" Cons by auto
        with 1 Cons have ih: "split_lines (cs @ t)
          = butlast (split_lines cs) @ [last (split_lines cs) @ hd (split_lines t)]
              @ tl (split_lines t)"
          by simp
        have f2: "\<not> (c = CR \<and> cs @ t \<noteq> [] \<and> hd (cs @ t) = LF)"
        proof (cases cs)
          case Nil
          with "1.prems" Cons show ?thesis by auto
        next
          case (Cons a list)
          with False show ?thesis by auto
        qed
        have a: "split_lines (c # cs @ t)
                   = (c # hd (split_lines (cs @ t))) # tl (split_lines (cs @ t))"
          using nlf f2 by (subst split_lines_Cons) simp
        have b: "split_lines (c # cs) = (c # hd (split_lines cs)) # tl (split_lines cs)"
          using nlf False by (subst split_lines_Cons) simp
        show ?thesis
        proof (cases "tl (split_lines cs) = []")
          case True
          then have one: "split_lines cs = [hd (split_lines cs)]"
            using split_lines_nonempty [of cs] by (cases "split_lines cs") auto
          then have "butlast (split_lines cs) = []" "last (split_lines cs) = hd (split_lines cs)"
            by (metis butlast.simps(2), metis last.simps)
          with a b ih True Cons show ?thesis by simp
        next
          case ne: False
          then obtain x y ys where xs: "split_lines cs = x # y # ys"
            by (cases "split_lines cs"; cases "tl (split_lines cs)") auto
          with a b ih Cons show ?thesis by simp
        qed
      qed
    qed
  qed
qed

lemma absorb_nonempty: "q \<noteq> [] \<Longrightarrow> absorb q ts \<noteq> []"
  by (induction ts arbitrary: q) auto

lemma absorb_prefix: "rest \<noteq> [] \<Longrightarrow> absorb (pre @ rest) ts = pre @ absorb rest ts"
proof (induction ts arbitrary: rest)
  case Nil
  then show ?case by simp
next
  case (Cons t ts)
  let ?n = "butlast rest @ [last rest @ hd (split_lines t)] @ tl (split_lines t)"
  have "?n \<noteq> []" by simp
  from Cons.IH [OF this] Cons.prems show ?case
    by (simp add: butlast_append)
qed

lemma drain_Some_split:
  "drain xs = (Some l, rest) \<Longrightarrow>
     \<exists>es. xs = es @ l # rest \<and> (\<forall>e \<in> set es. e = []) \<and> l \<noteq> [] \<and> rest \<noteq> []"
proof (induction xs rule: drain.induct)
  case (1 a b ls)
  show ?case
  proof (cases "a \<noteq> []")
    case True
    with 1(2) have "a # b # ls = [] @ l # rest \<and> (\<forall>e \<in> set []. e = []) \<and> l \<noteq> [] \<and> rest \<noteq> []"
      by auto
    then show ?thesis by blast
  next
    case False
    with 1 obtain es where "b # ls = es @ l # rest" "\<forall>e \<in> set es. e = []" "l \<noteq> []" "rest \<noteq> []"
      by auto
    with False have "a # b # ls = (a # es) @ l # rest \<and> (\<forall>e \<in> set (a # es). e = [])
        \<and> l \<noteq> [] \<and> rest \<noteq> []" by simp
    then show ?thesis by blast
  qed
qed simp_all

lemma drain_None_split:
  "drain xs = (None, rest) \<Longrightarrow>
     \<exists>es. xs = es @ rest \<and> (\<forall>e \<in> set es. e = []) \<and> length rest \<le> 1 \<and> (xs \<noteq> [] \<longrightarrow> rest \<noteq> [])"
proof (induction xs rule: drain.induct, goal_cases)
  case (1 a b ls)
  then have e: "a = []" and d: "drain (b # ls) = (None, rest)" by (auto split: if_splits)
  with 1 obtain es where "b # ls = es @ rest" "\<forall>e \<in> set es. e = []" "length rest \<le> 1"
    "rest \<noteq> []" by auto
  with e have "a # b # ls = (a # es) @ rest \<and> (\<forall>e \<in> set (a # es). e = []) \<and> length rest \<le> 1
      \<and> (a # b # ls \<noteq> [] \<longrightarrow> rest \<noteq> [])" by simp
  then show ?case by blast
next
  case 2
  then show ?case by simp
next
  case (3 v)
  then have "[v] = [] @ rest \<and> (\<forall>e \<in> set []. e = []) \<and> length rest \<le> 1 \<and> ([v] \<noteq> [] \<longrightarrow> rest \<noteq> [])"
    by auto
  then show ?case by blast
qed

lemma expected_Some:
  assumes "\<forall>e \<in> set es. e = []" and "l \<noteq> []" and "rest \<noteq> []"
  shows "expected (es @ l # rest) ts = l # expected rest ts"
proof -
  have ne: "absorb rest ts \<noteq> []" using assms(3) by (rule absorb_nonempty)
  have "absorb (es @ l # rest) ts = (es @ [l]) @ absorb rest ts"
    using absorb_prefix [OF assms(3), of "es @ [l]" ts] by simp
  moreover have "filter (\<lambda>l. l \<noteq> []) es = []" using assms(1) by (induction es) auto
  ultimately show ?thesis using ne assms(2) by (simp add: expected_def butlast_append)
qed

lemma expected_skip:
  assumes "\<forall>e \<in> set es. e = []" and "q \<noteq> []"
  shows "expected (es @ q) ts = expected q ts"
proof -
  have ne: "absorb q ts \<noteq> []" using assms(2) by (rule absorb_nonempty)
  have "absorb (es @ q) ts = es @ absorb q ts" using absorb_prefix [OF assms(2)] by simp
  moreover have "filter (\<lambda>l. l \<noteq> []) es = []" using assms(1) by (induction es) auto
  ultimately show ?thesis using ne by (simp add: expected_def butlast_append)
qed

subsection \<open>One call of the reader, on a handle in the middle of a file\<close>

lemma reading_lines [simp]: "reading c content (h\<lparr>lines := ls\<rparr>) = reading c content h"
  by (simp add: reading_def)

lemma rest_texts_lines [simp]: "rest_texts c content (h\<lparr>lines := ls\<rparr>) = rest_texts c content h"
  by (simp add: rest_texts_def split: option.splits)

lemma chunk_texts_Nil [simp]: "chunk_texts c st [] = []"
  by (subst chunk_texts.simps) simp

lemma chunk_texts_Cons:
  "0 < c \<Longrightarrow> bs \<noteq> [] \<Longrightarrow>
   chunk_texts c st bs
     = fst (decoder_write st (take c bs)) # chunk_texts c (snd (decoder_write st (take c bs))) (drop c bs)"
  by (subst chunk_texts.simps) (simp split: prod.splits)

lemma reading_unread_None:
  "reading c content h \<Longrightarrow> unread h = None \<Longrightarrow> rest_texts c content h = []"
  by (auto simp: reading_def unread_def rest_texts_def split: if_splits)

lemma reading_unread_Some:
  assumes "reading c content h" and "unread h = Some w"
  shows "workingPos h = Some w \<and> w < length content \<and> c \<le> length content - w"
proof -
  from assms have w: "workingPos h = Some w" "w < length content" "c dvd (length content - w)"
    by (auto simp: reading_def unread_def split: if_splits option.splits)
  from w(2) have "0 < length content - w" by simp
  with w(3) have "c \<le> length content - w" by (simp add: dvd_imp_le)
  with w show ?thesis by simp
qed

lemma read_chunk_step:
  assumes r: "reading c content h" and u: "unread h = Some w"
  shows "reading c content (read_chunk content w h) \<and>
         (\<exists>t. rest_texts c content h = t # rest_texts c content (read_chunk content w h) \<and>
              lines (read_chunk content w h)
                = (if length (lines h) > 0
                   then butlast (lines h) @ [last (lines h) @ hd (split_lines t)] @ tl (split_lines t)
                   else split_lines t))"
proof -
  from reading_unread_Some [OF r u]
  have w: "workingPos h = Some w" "w < length content" "c \<le> length content - w" by simp_all
  from r have c: "0 < c" "length (readBuffer h) = c" "size_bytes h = Some (length content)"
    "\<not> shouldSkip h" "c dvd (length content - w)"
    using w(1) by (auto simp: reading_def)
  define chunk where "chunk = take c (drop w content)"
  have fr: "fs_read content (readBuffer h) w = (c, chunk)"
    using c(2) w(3) by (simp add: fs_read_def chunk_def min_def)
  obtain t dec where dw: "decoder_write (decoder h) chunk = (t, dec)" by force
  have rc: "read_chunk content w h
      = h\<lparr> workingPos := Some (w + c), readBuffer := chunk, shouldSkip := False, decoder := dec,
           lines := (if length (lines h) > 0
                     then butlast (lines h) @ [last (lines h) @ hd (split_lines t)] @ tl (split_lines t)
                     else split_lines t) \<rparr>"
    using fr dw c(4) by (simp add: read_chunk_def Let_def)
  have len: "length chunk = c" using w(3) by (simp add: chunk_def)
  have d: "c dvd (length content - (w + c))"
  proof -
    have "length content - w = (length content - (w + c)) + c" using w(3) by simp
    with c(5) show ?thesis by (metis dvd_add_triv_right_iff)
  qed
  have rd: "reading c content (read_chunk content w h)"
    using c(1,3) w(3) len d by (simp add: rc reading_def)
  have ne: "drop w content \<noteq> []" using w(2) by simp
  have "rest_texts c content h = chunk_texts c (decoder h) (drop w content)"
    using w(1) by (simp add: rest_texts_def)
  also have "\<dots> = t # chunk_texts c dec (drop c (drop w content))"
    using chunk_texts_Cons [OF c(1) ne] dw by (simp add: chunk_def)
  also have "chunk_texts c dec (drop c (drop w content)) = rest_texts c content (read_chunk content w h)"
    by (simp add: rc rest_texts_def add.commute)
  finally have "rest_texts c content h = t # rest_texts c content (read_chunk content w h)" .
  with rd rc show ?thesis by auto
qed

lemma one_call:
  assumes "reading c content h" and "lines h \<noteq> [] \<or> rest_texts c content h \<noteq> []"
  shows "\<exists>l h'. readAtLeastALine content h = Some (Some l, h') \<and> reading c content h' \<and>
           expected (lines h) (rest_texts c content h)
             = l # (if lines h' = [] \<and> rest_texts c content h' = [] then []
                    else expected (lines h') (rest_texts c content h'))"
  using assms
proof (induction "length (rest_texts c content h)" arbitrary: h rule: less_induct)
  case less
  obtain r0 rest where dr: "drain (lines h) = (r0, rest)" by force
  show ?case
  proof (cases r0)
    case (Some l)
    from drain_Some_split [OF dr [unfolded Some]] obtain es where
      es: "lines h = es @ l # rest" "\<forall>e \<in> set es. e = []" "l \<noteq> []" "rest \<noteq> []" by blast
    have "readAtLeastALine content h = Some (Some l, h\<lparr>lines := rest\<rparr>)"
      using dr Some by (subst readAtLeastALine.simps) simp
    moreover have "expected (lines h) (rest_texts c content h)
        = l # expected rest (rest_texts c content h)"
      using expected_Some [OF es(2,3,4)] es(1) by simp
    ultimately show ?thesis using less.prems(1) es(4) by auto
  next
    case None
    from drain_None_split [OF dr [unfolded None]] obtain es where
      es: "lines h = es @ rest" "\<forall>e \<in> set es. e = []" "length rest \<le> 1"
          "lines h \<noteq> [] \<longrightarrow> rest \<noteq> []" by blast
    show ?thesis
    proof (cases "unread h")
      case (Some w)
      define h2 where "h2 = read_chunk content w (h\<lparr>lines := rest\<rparr>)"
      have r1: "reading c content (h\<lparr>lines := rest\<rparr>)" using less.prems(1) by simp
      have u1: "unread (h\<lparr>lines := rest\<rparr>) = Some w" using Some by simp
      from read_chunk_step [OF r1 u1] obtain t where
        st: "reading c content h2" "rest_texts c content h = t # rest_texts c content h2"
            "lines h2 = (if length rest > 0
                   then butlast rest @ [last rest @ hd (split_lines t)] @ tl (split_lines t)
                   else split_lines t)"
        by (auto simp: h2_def)
      have ne2: "lines h2 \<noteq> []" using st(3) by simp
      have lt: "length (rest_texts c content h2) < length (rest_texts c content h)"
        using st(2) by simp
      from less.hyps [OF lt st(1)] ne2 obtain l h' where
        ih: "readAtLeastALine content h2 = Some (Some l, h')" "reading c content h'"
            "expected (lines h2) (rest_texts c content h2)
               = l # (if lines h' = [] \<and> rest_texts c content h' = [] then []
                      else expected (lines h') (rest_texts c content h'))"
        by blast
      have call: "readAtLeastALine content h = readAtLeastALine content h2"
        using dr None Some by (subst readAtLeastALine.simps) (simp add: h2_def)
      have ab: "absorb rest (t # rest_texts c content h2) = absorb (lines h2) (rest_texts c content h2)"
        using st(3) by simp
      have "expected (lines h) (rest_texts c content h) = expected (lines h2) (rest_texts c content h2)"
      proof (cases "rest = []")
        case True
        with es(4) have "lines h = []" by auto
        with ab True st(2) show ?thesis by (simp add: expected_def)
      next
        case False
        have "expected (es @ rest) (t # rest_texts c content h2)
                = expected rest (t # rest_texts c content h2)"
          using expected_skip [OF es(2) False] by simp
        also have "\<dots> = expected (lines h2) (rest_texts c content h2)"
          using ab by (simp add: expected_def)
        finally show ?thesis using es(1) st(2) by simp
      qed
      with ih call show ?thesis by auto
    next
      case un: None
      from reading_unread_None [OF less.prems(1) un]
      have nt: "rest_texts c content h = []" .
      with less.prems(2) have "lines h \<noteq> []" by simp
      with es(3,4) obtain r where r: "rest = [r]"
        by (cases rest) auto
      have "readAtLeastALine content h = Some (Some r, h\<lparr>lines := []\<rparr>)"
        using dr None un r by (subst readAtLeastALine.simps) simp
      moreover have "expected (lines h) (rest_texts c content h) = [r]"
      proof -
        have "filter (\<lambda>l. l \<noteq> []) es = []" using es(2) by (induction es) auto
        with es(1) r nt show ?thesis by (simp add: expected_def)
      qed
      ultimately show ?thesis using less.prems(1) nt by auto
    qed
  qed
qed

lemma read_all_expected:
  assumes "reading c content h"
  shows "read_all (Suc (length (if lines h = [] \<and> rest_texts c content h = [] then []
                               else expected (lines h) (rest_texts c content h)))) content h
         = Some (if lines h = [] \<and> rest_texts c content h = [] then []
                 else expected (lines h) (rest_texts c content h))"
  using assms
proof (induction "length (if lines h = [] \<and> rest_texts c content h = [] then []
                               else expected (lines h) (rest_texts c content h))"
        arbitrary: h)
  case 0
  have "expected (lines h) (rest_texts c content h) \<noteq> []" by (simp add: expected_def)
  with 0 have f: "lines h = []" "rest_texts c content h = []" by (auto split: if_splits)
  have "unread h = None"
  proof (rule ccontr)
    assume "unread h \<noteq> None"
    then obtain w where "unread h = Some w" by auto
    from read_chunk_step [OF "0.prems" this] f(2) show False by auto
  qed
  with f(1) have "readAtLeastALine content h = Some (None, h)"
    by (simp add: readAtLeastALine_end)
  with f show ?case by (simp add: readTagLine_def)
next
  case (Suc n)
  then have nf: "\<not> (lines h = [] \<and> rest_texts c content h = [])" by (auto split: if_splits)
  then have "lines h \<noteq> [] \<or> rest_texts c content h \<noteq> []" by simp
  from one_call [OF Suc.prems this] obtain l h' where
    oc: "readAtLeastALine content h = Some (Some l, h')" "reading c content h'"
        "expected (lines h) (rest_texts c content h)
           = l # (if lines h' = [] \<and> rest_texts c content h' = [] then []
                  else expected (lines h') (rest_texts c content h'))"
    by blast
  let ?E' = "if lines h' = [] \<and> rest_texts c content h' = [] then []
             else expected (lines h') (rest_texts c content h')"
  from Suc(2) nf oc(3) have "n = length ?E'" by simp
  from Suc(1) [OF this oc(2)] have "read_all (Suc (length ?E')) content h' = Some ?E'" .
  with oc(1,3) nf show ?case by (simp add: readTagLine_def)
qed

subsection \<open>Bytes and code units\<close>

lemma unat_and_3F: "unat ((b :: byte) AND 0x3F) = unat b mod 64"
proof -
  have "(0x3F :: byte) = mask 6" by (simp add: mask_eq_exp_minus_1)
  then have "b AND 0x3F = take_bit 6 b" by (simp add: take_bit_eq_mask)
  then show ?thesis by (simp add: take_bit_eq_mod unat_mod)
qed

lemma unat_and_1F: "unat ((b :: byte) AND 0x1F) = unat b mod 32"
proof -
  have "(0x1F :: byte) = mask 5" by (simp add: mask_eq_exp_minus_1)
  then have "b AND 0x1F = take_bit 5 b" by (simp add: take_bit_eq_mask)
  then show ?thesis by (simp add: take_bit_eq_mod unat_mod)
qed

lemma unat_and_0F: "unat ((b :: byte) AND 0x0F) = unat b mod 16"
proof -
  have "(0x0F :: byte) = mask 4" by (simp add: mask_eq_exp_minus_1)
  then have "b AND 0x0F = take_bit 4 b" by (simp add: take_bit_eq_mask)
  then show ?thesis by (simp add: take_bit_eq_mod unat_mod)
qed

lemma unat_and_07: "unat ((b :: byte) AND 0x07) = unat b mod 8"
proof -
  have "(0x07 :: byte) = mask 3" by (simp add: mask_eq_exp_minus_1)
  then have "b AND 0x07 = take_bit 3 b" by (simp add: take_bit_eq_mask)
  then show ?thesis by (simp add: take_bit_eq_mod unat_mod)
qed

lemma unat_jschar_of_nat: "n < 65536 \<Longrightarrow> unat (of_nat n :: jschar) = n"
  by (simp add: unat_of_nat)

lemma of_nat_jschar_eq: "n < 65536 \<Longrightarrow> k < 65536 \<Longrightarrow> (of_nat n :: jschar) = of_nat k \<Longrightarrow> n = k"
  by (metis unat_jschar_of_nat)

lemma ascii_code_unit:
  assumes "(of_nat (unat (b :: byte)) :: jschar) = of_nat k" and "k < 256"
  shows "unat b = k"
proof -
  have "unat b < 256" using unsigned_less [of b, where 'a = nat] by simp
  with assms show ?thesis using of_nat_jschar_eq [of "unat b" k] by simp
qed

lemma utf16_no_terminator:
  assumes "128 \<le> c" and "c < 2097152"
  shows "utf16 c \<noteq> [] \<and> hd (utf16 c) \<noteq> LF \<and> last (utf16 c) \<noteq> CR"
proof (cases "c < 0x10000")
  case True
  have "(of_nat c :: jschar) \<noteq> of_nat 10" "(of_nat c :: jschar) \<noteq> of_nat 13"
    using of_nat_jschar_eq [of c 10] of_nat_jschar_eq [of c 13] True assms(1) by auto
  with True show ?thesis by (simp add: utf16_def)
next
  case False
  define y where "y = (c - 0x10000) div 0x400"
  define z where "z = (c - 0x10000) mod 0x400"
  have y: "y < 1984" using assms(2) False by (simp add: y_def)
  have z: "z < 1024" by (simp add: z_def)
  have "(of_nat (0xD800 + y) :: jschar) \<noteq> of_nat 10"
    using of_nat_jschar_eq [of "0xD800 + y" 10] y by auto
  moreover have "(of_nat (0xDC00 + z) :: jschar) \<noteq> of_nat 13"
    using of_nat_jschar_eq [of "0xDC00 + z" 13] z by auto
  ultimately show ?thesis using False by (simp add: utf16_def y_def z_def)
qed

subsection \<open>The decoder and the line terminators\<close>

text \<open>
  A line feed comes out of the decoder only for the byte \<open>0x0A\<close>, read when no character is
  pending, and a carriage return only for the byte \<open>0x0D\<close>.
\<close>

lemma wf_new_decoder [simp]: "wf_decoder new_decoder"
  by (simp add: wf_decoder_def new_decoder_def)

lemma needed_new_decoder [simp]: "bytes_needed new_decoder = 0"
  by (simp add: new_decoder_def)

lemma ascii_is_LF: "(of_nat (unat (b :: byte)) :: jschar) = LF \<Longrightarrow> b = 0x0A"
proof -
  assume "(of_nat (unat b) :: jschar) = LF"
  then have "(of_nat (unat b) :: jschar) = of_nat 10" by simp
  then have "unat b = 10" by (rule ascii_code_unit) simp
  then show ?thesis by (simp add: word_unat_eq_iff)
qed

lemma ascii_is_CR: "(of_nat (unat (b :: byte)) :: jschar) = CR \<Longrightarrow> b = 0x0D"
proof -
  assume "(of_nat (unat b) :: jschar) = CR"
  then have "(of_nat (unat b) :: jschar) = of_nat 13" by simp
  then have "unat b = 13" by (rule ascii_code_unit) simp
  then show ?thesis by (simp add: word_unat_eq_iff)
qed

lemma decode_lead_props:
  "wf_decoder (snd (decode_lead b)) \<and>
   (fst (decode_lead b) = [] \<longrightarrow> 0 < bytes_needed (snd (decode_lead b))) \<and>
   (fst (decode_lead b) \<noteq> [] \<and> hd (fst (decode_lead b)) = LF \<longrightarrow> b = 0x0A) \<and>
   (fst (decode_lead b) \<noteq> [] \<and> last (fst (decode_lead b)) = CR \<longrightarrow> b = 0x0D)"
proof -
  consider (ascii) "b \<le> 0x7F"
    | (two) "\<not> b \<le> 0x7F" "0xC2 \<le> b \<and> b \<le> 0xDF"
    | (three) "\<not> b \<le> 0x7F" "\<not> (0xC2 \<le> b \<and> b \<le> 0xDF)" "0xE0 \<le> b \<and> b \<le> 0xEF"
    | (four) "\<not> b \<le> 0x7F" "\<not> (0xC2 \<le> b \<and> b \<le> 0xDF)" "\<not> (0xE0 \<le> b \<and> b \<le> 0xEF)"
        "0xF0 \<le> b \<and> b \<le> 0xF4"
    | (bad) "\<not> b \<le> 0x7F" "\<not> (0xC2 \<le> b \<and> b \<le> 0xDF)" "\<not> (0xE0 \<le> b \<and> b \<le> 0xEF)"
        "\<not> (0xF0 \<le> b \<and> b \<le> 0xF4)"
    by blast
  then show ?thesis
  proof cases
    case ascii
    then have "decode_lead b = ([of_nat (unat b)], new_decoder)" by (simp add: decode_lead_def)
    then show ?thesis using ascii_is_LF [of b] ascii_is_CR [of b] by simp
  next
    case two
    then have d: "decode_lead b
        = ([], new_decoder\<lparr>bytes_needed := 1, code_point := unat (b AND 0x1F)\<rparr>)"
      by (simp add: decode_lead_def)
    from two(2) have "194 \<le> unat b" "unat b \<le> 223" by (simp_all add: word_le_nat_alt)
    then have "2 \<le> unat b mod 32" "unat b mod 32 < 32768" by presburger+
    then show ?thesis by (simp add: d wf_decoder_def new_decoder_def unat_and_1F)
  next
    case three
    then have d: "decode_lead b
        = ([], new_decoder\<lparr>bytes_needed := 2, code_point := unat (b AND 0x0F),
                    lower_boundary := (if b = 0xE0 then 0xA0 else 0x80),
                    upper_boundary := (if b = 0xED then 0x9F else 0xBF)\<rparr>)"
      by (auto simp add: decode_lead_def)
    from three(3) have r: "224 \<le> unat b" "unat b \<le> 239" by (simp_all add: word_le_nat_alt)
    have "b \<noteq> 0xE0 \<Longrightarrow> unat b \<noteq> 224" by (simp add: word_unat_eq_iff)
    with r have "b \<noteq> 0xE0 \<Longrightarrow> 1 \<le> unat b mod 16" by presburger
    moreover have "unat b mod 16 < 512" by simp
    ultimately show ?thesis by (simp add: d wf_decoder_def new_decoder_def unat_and_0F)
  next
    case four
    then have d: "decode_lead b
        = ([], new_decoder\<lparr>bytes_needed := 3, code_point := unat (b AND 0x07),
                    lower_boundary := (if b = 0xF0 then 0x90 else 0x80),
                    upper_boundary := (if b = 0xF4 then 0x8F else 0xBF)\<rparr>)"
      by (auto simp add: decode_lead_def)
    from four(4) have r: "240 \<le> unat b" "unat b \<le> 244" by (simp_all add: word_le_nat_alt)
    have "b \<noteq> 0xF0 \<Longrightarrow> unat b \<noteq> 240" by (simp add: word_unat_eq_iff)
    with r have "b \<noteq> 0xF0 \<Longrightarrow> 1 \<le> unat b mod 8" by presburger
    moreover have "unat b mod 8 < 8" by simp
    ultimately show ?thesis by (simp add: d wf_decoder_def new_decoder_def unat_and_07)
  next
    case bad
    then have "decode_lead b = ([REPLACEMENT], new_decoder)" by (auto simp add: decode_lead_def)
    then show ?thesis by simp
  qed
qed

lemma decode_byte_props:
  assumes "wf_decoder st"
  shows "wf_decoder (snd (decode_byte st b)) \<and>
   (fst (decode_byte st b) = [] \<longrightarrow> 0 < bytes_needed (snd (decode_byte st b))) \<and>
   (fst (decode_byte st b) \<noteq> [] \<and> hd (fst (decode_byte st b)) = LF
      \<longrightarrow> bytes_needed st = 0 \<and> b = 0x0A) \<and>
   (fst (decode_byte st b) \<noteq> [] \<and> last (fst (decode_byte st b)) = CR \<longrightarrow> b = 0x0D)"
proof -
  consider (lead) "bytes_needed st = 0"
    | (invalid) "bytes_needed st \<noteq> 0" "b < lower_boundary st \<or> upper_boundary st < b"
    | (final) "bytes_needed st \<noteq> 0" "\<not> (b < lower_boundary st \<or> upper_boundary st < b)"
        "bytes_needed st = 1"
    | (more) "bytes_needed st \<noteq> 0" "\<not> (b < lower_boundary st \<or> upper_boundary st < b)"
        "bytes_needed st \<noteq> 1"
    by blast
  then show ?thesis
  proof cases
    case lead
    then have "decode_byte st b = decode_lead b" by (simp add: decode_byte_def)
    with decode_lead_props [of b] lead show ?thesis by simp
  next
    case invalid
    then have d: "decode_byte st b = (REPLACEMENT # fst (decode_lead b), snd (decode_lead b))"
      by (simp add: decode_byte_def)
    show ?thesis using decode_lead_props [of b] by (simp add: d)
  next
    case final
    then have d: "decode_byte st b
        = (utf16 (code_point st * 64 + unat (b AND 0x3F)), new_decoder)"
      by (simp add: decode_byte_def)
    from assms final(3) have cp: "2 \<le> code_point st" "code_point st < 32768"
      by (simp_all add: wf_decoder_def)
    have "unat b mod 64 < 64" by simp
    with cp have "128 \<le> code_point st * 64 + unat b mod 64"
      "code_point st * 64 + unat b mod 64 < 2097152" by simp_all
    from utf16_no_terminator [OF this] show ?thesis by (simp add: d unat_and_3F)
  next
    case more
    then have d: "decode_byte st b
        = ([], \<lparr> code_point = code_point st * 64 + unat (b AND 0x3F),
                  bytes_needed = bytes_needed st - 1,
                  lower_boundary = 0x80, upper_boundary = 0xBF \<rparr>)"
      by (simp add: decode_byte_def)
    from more(2) have lo: "lower_boundary st \<le> b" "b \<le> upper_boundary st"
      by (simp_all add: not_less)
    from assms have w: "bytes_needed st \<le> 3" "upper_boundary st \<le> 0xBF"
      "bytes_needed st = 2 \<longrightarrow> code_point st < 512 \<and> (1 \<le> code_point st \<or> 0xA0 \<le> lower_boundary st)"
      "bytes_needed st = 3 \<longrightarrow> code_point st < 8 \<and> (1 \<le> code_point st \<or> 0x90 \<le> lower_boundary st)"
      by (simp_all add: wf_decoder_def)
    from lo(2) w(2) have ub: "unat b \<le> 191" by (simp add: word_le_nat_alt)
    have x: "unat b mod 64 < 64" by simp
    from more(1,3) w(1) have "bytes_needed st = 2 \<or> bytes_needed st = 3" by arith
    then show ?thesis
    proof
      assume n: "bytes_needed st = 2"
      with w(3) have c: "code_point st < 512" "1 \<le> code_point st \<or> 0xA0 \<le> lower_boundary st"
        by simp_all
      have "2 \<le> code_point st * 64 + unat b mod 64"
      proof (cases "1 \<le> code_point st")
        case True
        then show ?thesis by simp
      next
        case False
        with c(2) lo(1) have "0xA0 \<le> b" by simp
        then have "160 \<le> unat b" by (simp add: word_le_nat_alt)
        with ub have "32 \<le> unat b mod 64" by presburger
        then show ?thesis by simp
      qed
      moreover from c(1) x have "code_point st * 64 + unat b mod 64 < 32768" by simp
      ultimately show ?thesis using n by (simp add: d wf_decoder_def unat_and_3F)
    next
      assume n: "bytes_needed st = 3"
      with w(4) have c: "code_point st < 8" "1 \<le> code_point st \<or> 0x90 \<le> lower_boundary st"
        by simp_all
      have "1 \<le> code_point st * 64 + unat b mod 64"
      proof (cases "1 \<le> code_point st")
        case True
        then show ?thesis by simp
      next
        case False
        with c(2) lo(1) have "0x90 \<le> b" by simp
        then have "144 \<le> unat b" by (simp add: word_le_nat_alt)
        with ub have "16 \<le> unat b mod 64" by presburger
        then show ?thesis by simp
      qed
      moreover from c(1) x have "code_point st * 64 + unat b mod 64 < 512" by simp
      ultimately show ?thesis using n by (simp add: d wf_decoder_def unat_and_3F)
    qed
  qed
qed

subsection \<open>The chunks of a file\<close>

lemma decoder_write_append:
  "decoder_write st (a @ b)
     = (fst (decoder_write st a) @ fst (decoder_write (snd (decoder_write st a)) b),
        snd (decoder_write (snd (decoder_write st a)) b))"
  by (induction a arbitrary: st) (auto split: prod.splits)

lemma decoder_write_wf: "wf_decoder st \<Longrightarrow> wf_decoder (snd (decoder_write st bs))"
proof (induction bs arbitrary: st)
  case Nil
  then show ?case by simp
next
  case (Cons b bs)
  from decode_byte_props [OF Cons.prems, of b] have "wf_decoder (snd (decode_byte st b))" by simp
  from Cons.IH [OF this] show ?case
    by (cases "decode_byte st b"; cases "decoder_write (snd (decode_byte st b)) bs") simp
qed

lemma decoder_write_starts_lf:
  "wf_decoder st \<Longrightarrow> fst (decoder_write st bs) \<noteq> [] \<Longrightarrow> hd (fst (decoder_write st bs)) = LF \<Longrightarrow>
     bytes_needed st = 0 \<and> bs \<noteq> [] \<and> hd bs = 0x0A"
proof (induction bs arbitrary: st)
  case Nil
  then show ?case by simp
next
  case (Cons b bs)
  obtain out st1 where d: "decode_byte st b = (out, st1)" by force
  from decode_byte_props [OF Cons.prems(1), of b] d
  have p: "wf_decoder st1" "out = [] \<longrightarrow> 0 < bytes_needed st1"
    "out \<noteq> [] \<and> hd out = LF \<longrightarrow> bytes_needed st = 0 \<and> b = 0x0A" by simp_all
  have t: "fst (decoder_write st (b # bs)) = out @ fst (decoder_write st1 bs)"
    using d by (simp split: prod.splits)
  show ?case
  proof (cases "out = []")
    case True
    with t Cons.prems(2,3) have "fst (decoder_write st1 bs) \<noteq> []"
      "hd (fst (decoder_write st1 bs)) = LF" by simp_all
    from Cons.IH [OF p(1) this] p(2) True show ?thesis by simp
  next
    case False
    with t Cons.prems(3) have "hd out = LF" by simp
    with False p(3) show ?thesis by simp
  qed
qed

lemma decoder_write_ends_cr:
  assumes "wf_decoder st" and "fst (decoder_write st bs) \<noteq> []"
    and "last (fst (decoder_write st bs)) = CR" and "bytes_needed (snd (decoder_write st bs)) = 0"
  shows "bs \<noteq> [] \<and> last bs = 0x0D"
proof (cases bs rule: rev_cases)
  case Nil
  with assms(2) show ?thesis by simp
next
  case (snoc as b)
  define st1 where "st1 = snd (decoder_write st as)"
  have w: "wf_decoder st1" using assms(1) by (simp add: st1_def decoder_write_wf)
  have dw: "decoder_write st bs
      = (fst (decoder_write st as) @ fst (decode_byte st1 b), snd (decode_byte st1 b))"
    using snoc by (simp add: decoder_write_append st1_def split: prod.splits)
  from decode_byte_props [OF w, of b]
  have p: "fst (decode_byte st1 b) = [] \<longrightarrow> 0 < bytes_needed (snd (decode_byte st1 b))"
    "fst (decode_byte st1 b) \<noteq> [] \<and> last (fst (decode_byte st1 b)) = CR \<longrightarrow> b = 0x0D"
    by simp_all
  from assms(4) dw p(1) have ne: "fst (decode_byte st1 b) \<noteq> []" by auto
  with assms(3) dw have "last (fst (decode_byte st1 b)) = CR" by simp
  with ne p(2) snoc show ?thesis by simp
qed

lemma absorb_start: "ts \<noteq> [] \<Longrightarrow> absorb [] ts = absorb (split_lines []) ts"
  by (cases ts) simp_all

lemma absorb_chunks:
  assumes "0 < c"
  shows "decoder_write new_decoder pre = (s, st) \<Longrightarrow>
     (\<forall>p. length pre \<le> p \<and> p < length (pre @ bs) \<and> 0 < p \<and> c dvd (p - length pre)
          \<longrightarrow> \<not> ((pre @ bs) ! (p - 1) = 0x0D \<and> (pre @ bs) ! p = 0x0A)) \<Longrightarrow>
     absorb (split_lines s) (chunk_texts c st bs)
       = split_lines (fst (decoder_write new_decoder (pre @ bs)))"
proof (induction "length bs" arbitrary: bs pre s st rule: less_induct)
  case less
  show ?case
  proof (cases "bs = []")
    case True
    with less.prems(1) show ?thesis by simp
  next
    case False
    define chunk where "chunk = take c bs"
    define rest where "rest = drop c bs"
    obtain t st1 where dw: "decoder_write st chunk = (t, st1)" by force
    have bs: "bs = chunk @ rest" by (simp add: chunk_def rest_def)
    have cne: "chunk \<noteq> []" using False assms by (simp add: chunk_def)
    have ct: "chunk_texts c st bs = t # chunk_texts c st1 rest"
      using chunk_texts_Cons [OF assms False, of st] dw by (simp add: chunk_def rest_def)
    have wf: "wf_decoder st"
      using decoder_write_wf [OF wf_new_decoder, of pre] less.prems(1) by simp
    have pre': "decoder_write new_decoder (pre @ chunk) = (s @ t, st1)"
      using less.prems(1) dw by (simp add: decoder_write_append)
    have nostraddle: "\<not> (s \<noteq> [] \<and> last s = CR \<and> t \<noteq> [] \<and> hd t = LF)"
    proof
      assume a: "s \<noteq> [] \<and> last s = CR \<and> t \<noteq> [] \<and> hd t = LF"
      from decoder_write_starts_lf [OF wf, of chunk] dw a
      have lf: "bytes_needed st = 0" "hd chunk = 0x0A" by simp_all
      from decoder_write_ends_cr [OF wf_new_decoder, of pre] less.prems(1) a lf(1)
      have cr: "pre \<noteq> []" "last pre = 0x0D" by simp_all
      have "(pre @ bs) ! (length pre - 1) = 0x0D"
        using cr by (simp add: nth_append last_conv_nth)
      moreover have "(pre @ bs) ! length pre = 0x0A"
        using lf(2) cne bs by (metis hd_append2 hd_conv_nth nth_append_length_plus add.right_neutral False)
      moreover have "length pre \<le> length pre \<and> length pre < length (pre @ bs) \<and> 0 < length pre
          \<and> c dvd (length pre - length pre)"
        using cr(1) False by simp
      ultimately show False using less.prems(2) by blast
    qed
    have lt: "length rest < length bs" using False assms by (simp add: rest_def)
    have cond: "\<forall>p. length (pre @ chunk) \<le> p \<and> p < length ((pre @ chunk) @ rest) \<and> 0 < p
          \<and> c dvd (p - length (pre @ chunk))
          \<longrightarrow> \<not> (((pre @ chunk) @ rest) ! (p - 1) = 0x0D \<and> ((pre @ chunk) @ rest) ! p = 0x0A)"
    proof (intro allI impI)
      fix p
      assume a: "length (pre @ chunk) \<le> p \<and> p < length ((pre @ chunk) @ rest) \<and> 0 < p
          \<and> c dvd (p - length (pre @ chunk))"
      then have "rest \<noteq> []" by auto
      then have lc: "length chunk = c" by (auto simp: rest_def chunk_def)
      from a lc have "p - length pre = (p - length (pre @ chunk)) + c" by simp
      with a have "c dvd (p - length pre)" by (metis dvd_add_triv_right_iff)
      with a bs have "length pre \<le> p \<and> p < length (pre @ bs) \<and> 0 < p \<and> c dvd (p - length pre)"
        by auto
      with less.prems(2) have "\<not> ((pre @ bs) ! (p - 1) = 0x0D \<and> (pre @ bs) ! p = 0x0A)" by blast
      with bs show "\<not> (((pre @ chunk) @ rest) ! (p - 1) = 0x0D \<and> ((pre @ chunk) @ rest) ! p = 0x0A)"
        by simp
    qed
    from less.hyps [OF lt pre' cond]
    have ih: "absorb (split_lines (s @ t)) (chunk_texts c st1 rest)
       = split_lines (fst (decoder_write new_decoder ((pre @ chunk) @ rest)))" .
    have "absorb (split_lines s) (chunk_texts c st bs)
        = absorb (butlast (split_lines s) @ [last (split_lines s) @ hd (split_lines t)]
                    @ tl (split_lines t)) (chunk_texts c st1 rest)"
      by (simp add: ct)
    also have "\<dots> = absorb (split_lines (s @ t)) (chunk_texts c st1 rest)"
      using split_lines_append [OF nostraddle] by simp
    finally show ?thesis using ih bs by simp
  qed
qed

text \<open>
  Claim C6, as the code has it. A file is read from position 0 to its end, without a seek,
  through a buffer whose size divides the length of the file, and no \<open>\r\n\<close> has its two
  bytes in different chunks. Then the reader returns, in their order, the lines that
  decoding the whole file as one chunk and splitting it at \<open>\n\<close> and \<open>\r\n\<close> gives, without
  the empty ones among all but the last of them; the last one is returned as it is. A
  character whose bytes are in two chunks is decoded as in the whole file, and the end of a
  chunk in the middle of a line is joined with the start of the next chunk. A file of no
  bytes gives no line.
\<close>

theorem read_all_whole_file:
  assumes "0 < length buf" and "length buf dvd length content"
    and "no_crlf_split (length buf) content"
  shows "read_all (Suc (length (if content = [] then [] else expected_lines content))) content
           (opened buf (length content))
         = Some (if content = [] then [] else expected_lines content)"
proof -
  define h where "h = opened buf (length content)"
  define c where "c = length buf"
  have r: "reading c content h"
    using assms(1,2) by (simp add: reading_def h_def c_def opened_def new_CTags_def)
  have l: "lines h = []" by (simp add: h_def opened_def new_CTags_def)
  have rt: "rest_texts c content h = chunk_texts c new_decoder content"
    by (simp add: rest_texts_def h_def opened_def new_CTags_def)
  show ?thesis
  proof (cases "content = []")
    case True
    have "rest_texts c content h = []" using rt True by simp
    with l have "(if lines h = [] \<and> rest_texts c content h = [] then []
        else expected (lines h) (rest_texts c content h)) = []" by simp
    with read_all_expected [OF r] have "read_all (Suc 0) content h = Some []" by simp
    with True show ?thesis by (simp add: h_def)
  next
    case False
    have cpos: "0 < c" using assms(1) by (simp add: c_def)
    have ne: "chunk_texts c new_decoder content \<noteq> []"
      using chunk_texts_Cons [OF cpos False] by simp
    have cond: "\<forall>p. length ([] :: byte list) \<le> p \<and> p < length ([] @ content) \<and> 0 < p
          \<and> c dvd (p - length ([] :: byte list))
          \<longrightarrow> \<not> (([] @ content) ! (p - 1) = 0x0D \<and> ([] @ content) ! p = 0x0A)"
      using assms(3) by (simp add: no_crlf_split_def c_def)
    have "decoder_write new_decoder [] = ([], new_decoder)" by simp
    from absorb_chunks [OF cpos this cond]
    have "absorb (split_lines []) (chunk_texts c new_decoder content) = whole_file_lines content"
      by (simp add: whole_file_lines_def)
    with absorb_start [OF ne]
    have "absorb [] (chunk_texts c new_decoder content) = whole_file_lines content" by simp
    then have "expected [] (chunk_texts c new_decoder content) = expected_lines content"
      by (simp add: expected_def expected_lines_def)
    with l rt ne have "(if lines h = [] \<and> rest_texts c content h = [] then []
        else expected (lines h) (rest_texts c content h)) = expected_lines content" by simp
    with read_all_expected [OF r]
    have "read_all (Suc (length (expected_lines content))) content h
        = Some (expected_lines content)" by simp
    with False show ?thesis by (simp add: h_def)
  qed
qed

subsection \<open>Two files\<close>

lemma no_crlf_split_code [code]:
  "no_crlf_split c content \<longleftrightarrow>
     list_all (\<lambda>p. \<not> (0 < p \<and> c dvd p \<and> content ! (p - 1) = 0x0D \<and> content ! p = 0x0A))
       [0..<length content]"
  by (auto simp add: no_crlf_split_def list_all_iff)

lemma accent_lines: "expected_lines accent_file = [JS ''ab'' @ [0xE9], JS ''c'', []]"
  by code_simp

lemma accent_whole: "whole_file_lines accent_file = [JS ''ab'' @ [0xE9], [], JS ''c'', []]"
  by code_simp

lemma accent_split: "no_crlf_split 3 accent_file"
  by code_simp

lemma accent_length: "length accent_file = 9"
  by code_simp

text \<open>
  The theorem at \<open>accent_file\<close>, read through a buffer of three bytes.
\<close>

theorem read_all_whole_file_witness:
  "0 < length (replicate 3 (0 :: byte)) \<and>
   length (replicate 3 (0 :: byte)) dvd length accent_file \<and>
   no_crlf_split (length (replicate 3 (0 :: byte))) accent_file \<and>
   read_all 4 accent_file (opened (replicate 3 0) (length accent_file))
     = Some [JS ''ab'' @ [0xE9], JS ''c'', []]"
proof -
  have h1: "0 < length (replicate 3 (0 :: byte))" by simp
  have h2: "length (replicate 3 (0 :: byte)) dvd length accent_file"
    by (simp add: accent_length)
  have h3: "no_crlf_split (length (replicate 3 (0 :: byte))) accent_file"
    using accent_split by simp
  have "accent_file \<noteq> []" using accent_length by auto
  then have e: "(if accent_file = [] then [] else expected_lines accent_file)
      = [JS ''ab'' @ [0xE9], JS ''c'', []]"
    by (simp add: accent_lines)
  have n: "Suc (length [JS ''ab'' @ [0xE9], JS ''c'', ([] :: jsstring)]) = 4" by simp
  have "read_all 4 accent_file (opened (replicate 3 0) (length accent_file))
      = Some [JS ''ab'' @ [0xE9], JS ''c'', []]"
    using read_all_whole_file [OF h1 h2 h3] by (simp only: e n)
  with h1 h2 h3 show ?thesis by blast
qed

text \<open>
  The claim as it is written fails at \<open>blank_file\<close>, read through a buffer of five bytes, as
  long as the file: the split of the whole file has the blank line, the reader does not
  return it (line 172).
\<close>

theorem read_all_drops_blank_line:
  "read_all 4 blank_file (opened (replicate 5 0) (length blank_file))
     = Some [JS ''a'', JS ''b'', []] \<and>
   whole_file_lines blank_file = [JS ''a'', [], JS ''b'', []]"
  by code_simp

end
